theory Spec2Isabelle
  imports Complex_Main "HOL-Library.AList"
begin

section \<open>Data model\<close>

text \<open>
  The search of \<^verbatim>\<open>mcts_modified.py\<close> works on a tree of mutable \<^verbatim>\<open>MCTSNode\<close>
  objects that point to their parent and own a dictionary of children. The objects live
  in an explicit store: a list of node records, a reference being an index into it, and
  a newly constructed node being appended at the end.

  An action is the 4-tuple \<^verbatim>\<open>(R, C, r, c)\<close> that \<^verbatim>\<open>rollout\<close> unpacks. Player
  identities and box owners are Python integers. Outcome values, \<^verbatim>\<open>wins\<close> and the
  floating-point scores are modelled as real numbers (rounding is not modelled).
\<close>

type_synonym action = "int \<times> int \<times> int \<times> int"

type_synonym ref = nat

text \<open>
  Modelled from the spec: the class \<^verbatim>\<open>MCTSNode\<close> of \<^verbatim>\<open>mcts_node.py\<close>, which is
  imported by the module and not part of the sources. Its fields are the six fields of
  the Search Node of the data model; \<^verbatim>\<open>child_nodes\<close> is a dictionary, kept as an
  association list in insertion order; \<^verbatim>\<open>visits\<close> is a count.
\<close>

record MCTSNode =
  parent :: "ref option"
  parent_action :: "action option"
  child_nodes :: "(action \<times> ref) list"
  untried_actions :: "action list"
  wins :: real
  visits :: nat

type_synonym store = "MCTSNode list"

text \<open>
  Modelled from the spec: the constructor \<^verbatim>\<open>MCTSNode(parent, parent_action, action_list)\<close>,
  as \<^verbatim>\<open>think\<close> and \<^verbatim>\<open>expand_leaf\<close> call it: no children, the given untried
  actions, and both statistics at zero.
\<close>

definition new_node :: "ref option \<Rightarrow> action option \<Rightarrow> action list \<Rightarrow> MCTSNode" where
  "new_node p a action_list =
     \<lparr>parent = p, parent_action = a, child_nodes = [], untried_actions = action_list,
      wins = 0, visits = 0\<rparr>"

text \<open>
  The game is the external class \<^verbatim>\<open>Board\<close> of \<^verbatim>\<open>p2_t3.py\<close>; the search only calls
  six of its methods, which are taken as parameters. \<^verbatim>\<open>points_values\<close> returns
  \<^verbatim>\<open>None\<close> or a dictionary from players to values, \<^verbatim>\<open>owned_boxes\<close> a dictionary
  from box coordinates to owners.
\<close>

record 'st Board =
  is_ended :: "'st \<Rightarrow> bool"
  next_state :: "'st \<Rightarrow> action \<Rightarrow> 'st"
  legal_actions :: "'st \<Rightarrow> action list"
  points_values :: "'st \<Rightarrow> (int \<rightharpoonup> real) option"
  current_player :: "'st \<Rightarrow> int"
  owned_boxes :: "'st \<Rightarrow> (int \<times> int) \<rightharpoonup> int"

text \<open>
  The exceptions the module can raise. \<open>DanglingRef\<close> stands for a reference outside the
  store; Python has no such references, and no store built by \<^verbatim>\<open>think\<close> has one.
\<close>

datatype error =
  AttributeError | ZeroDivisionError | ValueError | KeyError | TypeError | IndexError
  | DanglingRef

definition num_nodes :: nat where
  "num_nodes = 100"

definition explore_faction :: real where
  "explore_faction = 2"

section \<open>The UCB score\<close>

text \<open>
  Python's \<^verbatim>\<open>/\<close>, \<^verbatim>\<open>math.log\<close> and \<^verbatim>\<open>math.sqrt\<close> raise outside their domain.
\<close>

definition py_truediv :: "real \<Rightarrow> real \<Rightarrow> error + real" where
  "py_truediv a b = (if b = 0 then Inl ZeroDivisionError else Inr (a / b))"

definition py_log :: "real \<Rightarrow> error + real" where
  "py_log x = (if x \<le> 0 then Inl ValueError else Inr (ln x))"

definition py_sqrt :: "real \<Rightarrow> error + real" where
  "py_sqrt x = (if x < 0 then Inl ValueError else Inr (sqrt x))"

definition deref :: "store \<Rightarrow> ref \<Rightarrow> error + MCTSNode" where
  "deref h r = (if r < length h then Inr (h ! r) else Inl DanglingRef)"

definition and_then :: "error + 'a \<Rightarrow> ('a \<Rightarrow> error + 'b) \<Rightarrow> error + 'b" where
  "and_then m f = (case m of Inl e \<Rightarrow> Inl e | Inr x \<Rightarrow> f x)"

text \<open>
  \<^verbatim>\<open>node.wins / node.visits\<close> is evaluated first, then the exploration term
  \<^verbatim>\<open>explore_faction * sqrt(log(node.parent.visits) / node.visits)\<close>.
\<close>

definition exploration :: "store \<Rightarrow> MCTSNode \<Rightarrow> error + real" where
  "exploration h node =
     (case parent node of
        None \<Rightarrow> Inl AttributeError
      | Some p \<Rightarrow>
          and_then (deref h p) (\<lambda>pnode.
          and_then (py_log (real (visits pnode))) (\<lambda>l.
          and_then (py_truediv l (real (visits node))) (\<lambda>q.
          and_then (py_sqrt q) (\<lambda>s. Inr (explore_faction * s))))))"

definition ucb :: "store \<Rightarrow> ref \<Rightarrow> bool \<Rightarrow> error + real" where
  "ucb h r is_opponent =
     and_then (deref h r) (\<lambda>node.
       if is_opponent then
         and_then (py_truediv (wins node) (real (visits node))) (\<lambda>rate.
         and_then (exploration h node) (\<lambda>e. Inr (rate + e)))
       else
         and_then (py_truediv (wins node) (real (visits node))) (\<lambda>rate.
         and_then (exploration h node) (\<lambda>e. Inr ((1 - rate) + e))))"

section \<open>Selection\<close>

text \<open>
  The loop of \<^verbatim>\<open>traverse_nodes\<close> over \<^verbatim>\<open>currentNode.child_nodes.keys()\<close>. It either
  leaves the function with a child and its state (\<open>Returned\<close>), or runs to the end with
  the three loop variables \<^verbatim>\<open>bestUCB\<close>, \<^verbatim>\<open>bestNode\<close>, \<^verbatim>\<open>bestAction\<close>.
\<close>

datatype 'st scan_result = Returned ref 'st | Best real "ref option" "action option"

fun scan_children ::
  "store \<Rightarrow> 'st Board \<Rightarrow> MCTSNode \<Rightarrow> 'st \<Rightarrow> int \<Rightarrow> (action \<times> ref) list
     \<Rightarrow> real \<Rightarrow> ref option \<Rightarrow> action option \<Rightarrow> error + 'st scan_result" where
  "scan_children h B currentNode state bot_identity [] bestUCB bestNode bestAction =
     Inr (Best bestUCB bestNode bestAction)"
| "scan_children h B currentNode state bot_identity ((child, c) # rest) bestUCB bestNode bestAction =
     (case deref h c of
        Inl e \<Rightarrow> Inl e
      | Inr cnode \<Rightarrow>
          if visits cnode = 0 \<or> length (untried_actions currentNode) > 0
          then Inr (Returned c (next_state B state child))
          else
            (case ucb h c (bot_identity = current_player B state) of
               Inl e \<Rightarrow> Inl e
             | Inr childUCB \<Rightarrow>
                 if childUCB > bestUCB
                 then scan_children h B currentNode state bot_identity rest childUCB (Some c) (Some child)
                 else scan_children h B currentNode state bot_identity rest bestUCB bestNode bestAction))"

text \<open>
  When the loop ends with \<^verbatim>\<open>bestNode = None\<close>, the source calls
  \<^verbatim>\<open>board.next_state(state, None)\<close> and then \<^verbatim>\<open>traverse_nodes(None, ...)\<close>, which
  reads \<^verbatim>\<open>None.untried_actions\<close>: the call fails.

  The recursive functions of the module are partial functions here: the result \<open>None\<close>
  stands for a call that does not return, \<open>Some (Inl e)\<close> for an exception and
  \<open>Some (Inr x)\<close> for the returned value. The interpreter's bound on the recursion depth
  is not modelled.
\<close>

partial_function (option) traverse_nodes ::
  "store \<Rightarrow> 'st Board \<Rightarrow> ref \<Rightarrow> 'st \<Rightarrow> int \<Rightarrow> (error + ref \<times> 'st) option" where
  "traverse_nodes h B node state bot_identity =
     (case deref h node of
        Inl e \<Rightarrow> Some (Inl e)
      | Inr currentNode \<Rightarrow>
          if length (untried_actions currentNode) < 1 \<and> \<not> is_ended B state then
            (case scan_children h B currentNode state bot_identity (child_nodes currentNode)
                    (- 999999) None None of
               Inl e \<Rightarrow> Some (Inl e)
             | Inr (Returned c s) \<Rightarrow> Some (Inr (c, s))
             | Inr (Best bestUCB None bestAction) \<Rightarrow> Some (Inl AttributeError)
             | Inr (Best bestUCB (Some bestNode) None) \<Rightarrow> Some (Inl AttributeError)
             | Inr (Best bestUCB (Some bestNode) (Some bestAction)) \<Rightarrow>
                 traverse_nodes h B bestNode (next_state B state bestAction) bot_identity)
          else Some (Inr (node, state)))"

section \<open>Expansion\<close>

text \<open>
  \<^verbatim>\<open>untried_actions.pop()\<close> takes the last element of the list;
  \<^verbatim>\<open>node.child_nodes[parentAction] = newNode\<close> overwrites the entry of an existing key
  in place and appends a new key at the end.
\<close>

definition expand_leaf ::
  "store \<Rightarrow> 'st Board \<Rightarrow> ref \<Rightarrow> 'st \<Rightarrow> error + store \<times> ref \<times> 'st" where
  "expand_leaf h B node state =
     (case deref h node of
        Inl e \<Rightarrow> Inl e
      | Inr nd \<Rightarrow>
          if length (untried_actions nd) > 0 then
            (let parentAction = last (untried_actions nd);
                 nd1 = nd\<lparr>untried_actions := butlast (untried_actions nd)\<rparr>;
                 nextState = next_state B state parentAction;
                 actionList = legal_actions B nextState;
                 newNode = length h;
                 nd2 = nd1\<lparr>child_nodes := AList.update parentAction newNode (child_nodes nd1)\<rparr>
             in Inr (h[node := nd2] @ [new_node (Some node) (Some parentAction) actionList],
                     newNode, nextState))
          else Inr (h, node, state))"

section \<open>Rollout\<close>

text \<open>
  The body of the loop over \<^verbatim>\<open>board.legal_actions(state)\<close> ends in one of five ways:
  \<open>Win\<close> and \<open>Capture\<close> set \<^verbatim>\<open>nextAction\<close> and break, \<open>Loss\<close> and \<open>Handover\<close>
  continue without keeping the action, \<open>Neutral\<close> appends it to \<^verbatim>\<open>validActions\<close>.
\<close>

datatype verdict = Win | Loss | Capture | Handover | Neutral

definition capture_check :: "'st Board \<Rightarrow> 'st \<Rightarrow> int \<Rightarrow> action \<Rightarrow> error + verdict" where
  "capture_check B nextState currPlayer action =
     (case action of (R, C, r, c) \<Rightarrow>
        (case owned_boxes B nextState (R, C) of
           None \<Rightarrow> Inl KeyError
         | Some owner \<Rightarrow>
             if owner = currPlayer then Inr Capture
             else if owner = 3 - currPlayer then Inr Handover
             else Inr Neutral))"

definition judge :: "'st Board \<Rightarrow> 'st \<Rightarrow> action \<Rightarrow> error + verdict" where
  "judge B state action =
     (let nextState = next_state B state action;
          nextStateScore = points_values B nextState;
          currPlayer = current_player B state
      in case nextStateScore of
           None \<Rightarrow> capture_check B nextState currPlayer action
         | Some score \<Rightarrow>
             (case score currPlayer of
                None \<Rightarrow> Inl KeyError
              | Some v \<Rightarrow>
                  if v = 1 then Inr Win
                  else if v = - 1 then Inr Loss
                  else capture_check B nextState currPlayer action))"

fun scan_actions ::
  "'st Board \<Rightarrow> 'st \<Rightarrow> action list \<Rightarrow> action list \<Rightarrow> error + action option \<times> action list" where
  "scan_actions B state [] validActions = Inr (None, validActions)"
| "scan_actions B state (action # rest) validActions =
     (case judge B state action of
        Inl e \<Rightarrow> Inl e
      | Inr Win \<Rightarrow> Inr (Some action, validActions)
      | Inr Loss \<Rightarrow> scan_actions B state rest validActions
      | Inr Capture \<Rightarrow> Inr (Some action, validActions)
      | Inr Handover \<Rightarrow> scan_actions B state rest validActions
      | Inr Neutral \<Rightarrow> scan_actions B state rest (validActions @ [action]))"

text \<open>
  \<^verbatim>\<open>random.choice\<close> raises \<^verbatim>\<open>IndexError\<close> on an empty sequence and otherwise returns
  any of its elements. The random source is a sequence \<open>rnd\<close> of natural numbers, of
  which \<open>k\<close> have been drawn; theorems hold for every such sequence.
\<close>

definition choice :: "'a list \<Rightarrow> nat \<Rightarrow> error + 'a" where
  "choice xs r = (if xs = [] then Inl IndexError else Inr (xs ! (r mod length xs)))"

definition choose_action ::
  "'st Board \<Rightarrow> 'st \<Rightarrow> (nat \<Rightarrow> nat) \<Rightarrow> nat \<Rightarrow> error + action \<times> nat" where
  "choose_action B state rnd k =
     (case scan_actions B state (legal_actions B state) [] of
        Inl e \<Rightarrow> Inl e
      | Inr (Some nextAction, validActions) \<Rightarrow> Inr (nextAction, k)
      | Inr (None, validActions) \<Rightarrow>
          (case choice validActions (rnd k) of
             Inl e \<Rightarrow> Inl e
           | Inr nextAction \<Rightarrow> Inr (nextAction, Suc k)))"

partial_function (option) rollout ::
  "'st Board \<Rightarrow> 'st \<Rightarrow> (nat \<Rightarrow> nat) \<Rightarrow> nat \<Rightarrow> (error + 'st \<times> nat) option" where
  "rollout B state rnd k =
     (if is_ended B state then Some (Inr (state, k))
      else
        (case choose_action B state rnd k of
           Inl e \<Rightarrow> Some (Inl e)
         | Inr (nextAction, k') \<Rightarrow> rollout B (next_state B state nextAction) rnd k'))"

section \<open>Backpropagation\<close>

definition bump :: "real \<Rightarrow> MCTSNode \<Rightarrow> MCTSNode" where
  "bump won nd = nd\<lparr>wins := wins nd + won, visits := visits nd + 1\<rparr>"

partial_function (option) backpropagate ::
  "store \<Rightarrow> ref option \<Rightarrow> real \<Rightarrow> (error + store) option" where
  "backpropagate h node won =
     (case node of
        None \<Rightarrow> Some (Inl AttributeError)
      | Some n \<Rightarrow>
          (case deref h n of
             Inl e \<Rightarrow> Some (Inl e)
           | Inr nd \<Rightarrow>
               (let h' = h[n := bump won nd] in
                case parent nd of
                  None \<Rightarrow> Some (Inr h')
                | Some p \<Rightarrow> backpropagate h' (Some p) won)))"

section \<open>Recommendation\<close>

fun best_rate_scan ::
  "store \<Rightarrow> ref list \<Rightarrow> action option \<Rightarrow> real \<Rightarrow> error + action option" where
  "best_rate_scan h [] action bestRate = Inr action"
| "best_rate_scan h (c # rest) action bestRate =
     (case deref h c of
        Inl e \<Rightarrow> Inl e
      | Inr child \<Rightarrow>
          (case py_truediv (wins child) (real (visits child)) of
             Inl e \<Rightarrow> Inl e
           | Inr currRate \<Rightarrow>
               if currRate > bestRate
               then best_rate_scan h rest (parent_action child) currRate
               else best_rate_scan h rest action bestRate))"

definition get_best_action :: "store \<Rightarrow> ref \<Rightarrow> error + action option" where
  "get_best_action h root_node =
     (case deref h root_node of
        Inl e \<Rightarrow> Inl e
      | Inr rootNode \<Rightarrow> best_rate_scan h (map snd (child_nodes rootNode)) None (- 999999))"

section \<open>The search driver\<close>

text \<open>
  One pass of the loop body of \<^verbatim>\<open>think\<close>. The root is the first node of the store.
  \<^verbatim>\<open>winValue[bot_identity]\<close> fails with \<^verbatim>\<open>TypeError\<close> when \<^verbatim>\<open>points_values\<close> returned
  \<^verbatim>\<open>None\<close> and with \<^verbatim>\<open>KeyError\<close> when the player is not a key.
\<close>

definition think_iteration ::
  "'st Board \<Rightarrow> 'st \<Rightarrow> int \<Rightarrow> (nat \<Rightarrow> nat) \<Rightarrow> store \<times> nat \<Rightarrow> (error + store \<times> nat) option" where
  "think_iteration B current_state bot_identity rnd hk =
     (case hk of (h, k) \<Rightarrow>
      (case traverse_nodes h B 0 current_state bot_identity of
         None \<Rightarrow> None
       | Some (Inl e) \<Rightarrow> Some (Inl e)
       | Some (Inr (leafNode, newState)) \<Rightarrow>
           (case expand_leaf h B leafNode newState of
              Inl e \<Rightarrow> Some (Inl e)
            | Inr (h1, newLeaf, newState1) \<Rightarrow>
                (case rollout B newState1 rnd k of
                   None \<Rightarrow> None
                 | Some (Inl e) \<Rightarrow> Some (Inl e)
                 | Some (Inr (newState2, k')) \<Rightarrow>
                     (case points_values B newState2 of
                        None \<Rightarrow> Some (Inl TypeError)
                      | Some winValue \<Rightarrow>
                          (case winValue bot_identity of
                             None \<Rightarrow> Some (Inl KeyError)
                           | Some won \<Rightarrow>
                               (case backpropagate h1 (Some newLeaf) won of
                                  None \<Rightarrow> None
                                | Some (Inl e) \<Rightarrow> Some (Inl e)
                                | Some (Inr h2) \<Rightarrow> Some (Inr (h2, k')))))))))"

fun think_loop ::
  "'st Board \<Rightarrow> 'st \<Rightarrow> int \<Rightarrow> (nat \<Rightarrow> nat) \<Rightarrow> nat \<Rightarrow> store \<times> nat \<Rightarrow> (error + store \<times> nat) option" where
  "think_loop B current_state bot_identity rnd 0 hk = Some (Inr hk)"
| "think_loop B current_state bot_identity rnd (Suc n) hk =
     (case think_iteration B current_state bot_identity rnd hk of
        None \<Rightarrow> None
      | Some (Inl e) \<Rightarrow> Some (Inl e)
      | Some (Inr hk') \<Rightarrow> think_loop B current_state bot_identity rnd n hk')"

definition root_store :: "'st Board \<Rightarrow> 'st \<Rightarrow> store" where
  "root_store B current_state = [new_node None None (legal_actions B current_state)]"

definition think :: "'st Board \<Rightarrow> 'st \<Rightarrow> (nat \<Rightarrow> nat) \<Rightarrow> (error + action option) option" where
  "think B current_state rnd =
     (let bot_identity = current_player B current_state in
      case think_loop B current_state bot_identity rnd num_nodes (root_store B current_state, 0) of
        None \<Rightarrow> None
      | Some (Inl e) \<Rightarrow> Some (Inl e)
      | Some (Inr (h, k)) \<Rightarrow>
          (case get_best_action h 0 of
             Inl e \<Rightarrow> Some (Inl e)
           | Inr best_action \<Rightarrow> Some (Inr best_action)))"

text \<open>
  The recursion equations of the three partial functions are code equations, so that the
  functions can be evaluated on concrete inputs.
\<close>

declare traverse_nodes.simps [code] rollout.simps [code] backpropagate.simps [code]

section \<open>Notions used in the statements\<close>

text \<open>The store in which the node \<open>c\<close> has the given \<^verbatim>\<open>wins\<close> and nothing else differs.\<close>

definition with_wins :: "store \<Rightarrow> ref \<Rightarrow> real \<Rightarrow> store" where
  "with_wins h c w = h[c := (h ! c)\<lparr>wins := w\<rparr>]"

text \<open>The win rate \<^verbatim>\<open>child.wins / child.visits\<close> of a node with \<open>visits > 0\<close>.\<close>

definition rate :: "store \<Rightarrow> ref \<Rightarrow> real" where
  "rate h c = wins (h ! c) / real (visits (h ! c))"

text \<open>
  \<open>parent_chain h n ns\<close>: the list \<open>ns\<close> is the path of parent references that starts at
  the node \<open>n\<close> and ends at a node without parent. \<open>bump_all\<close> applies the update of
  \<^verbatim>\<open>backpropagate\<close> to each node of a list in turn.
\<close>

fun parent_chain :: "store \<Rightarrow> ref \<Rightarrow> ref list \<Rightarrow> bool" where
  "parent_chain h n [] = False"
| "parent_chain h n (m # ms) =
     (m = n \<and> n < length h \<and>
      (case parent (h ! n) of None \<Rightarrow> ms = [] | Some p \<Rightarrow> parent_chain h p ms))"

definition bump_all :: "real \<Rightarrow> ref list \<Rightarrow> store \<Rightarrow> store" where
  "bump_all won ns h = fold (\<lambda>m g. g[m := bump won (g ! m)]) ns h"

text \<open>
  The invariant of the store between two iterations of \<^verbatim>\<open>think\<close>. The root is node 0
  and has no parent; every other node points to an older node as its parent and has at most
  the parent's visits; the entries of every children dictionary are nodes of the store that
  point back to the owner; the root's children are distinct nodes whose visits sum to at
  most the root's. \<open>visited_except h x\<close> says that every node other than the root and
  \<open>x\<close> has been visited.
\<close>

definition child_refs :: "MCTSNode \<Rightarrow> ref list" where
  "child_refs nd = map snd (child_nodes nd)"

definition tree_inv :: "store \<Rightarrow> bool" where
  "tree_inv h \<longleftrightarrow>
     0 < length h \<and> parent (h ! 0) = None
   \<and> (\<forall>c<length h. 0 < c \<longrightarrow> (\<exists>p<c. parent (h ! c) = Some p \<and> visits (h ! c) \<le> visits (h ! p)))
   \<and> (\<forall>n<length h. \<forall>c\<in>set (child_refs (h ! n)). c < length h \<and> parent (h ! c) = Some n)
   \<and> distinct (child_refs (h ! 0))
   \<and> sum_list (map (\<lambda>c. visits (h ! c)) (child_refs (h ! 0))) \<le> visits (h ! 0)"

definition visited_except :: "store \<Rightarrow> ref \<Rightarrow> bool" where
  "visited_except h x \<longleftrightarrow> (\<forall>c<length h. 0 < c \<longrightarrow> c \<noteq> x \<longrightarrow> 1 \<le> visits (h ! c))"

text \<open>
  Two further invariants of the stores of \<^verbatim>\<open>think\<close>: the \<open>wins\<close> of a node are at
  least minus its \<open>visits\<close> (when no outcome value is below \<open>- 1\<close>), and every child
  is stored under its own \<^verbatim>\<open>parent_action\<close>.
\<close>

definition wins_bounded :: "store \<Rightarrow> bool" where
  "wins_bounded h \<longleftrightarrow> (\<forall>c<length h. - real (visits (h ! c)) \<le> wins (h ! c))"

definition keys_match :: "store \<Rightarrow> bool" where
  "keys_match h \<longleftrightarrow>
     (\<forall>n<length h. \<forall>ac\<in>set (child_nodes (h ! n)). parent_action (h ! snd ac) = Some (fst ac))"

section \<open>Example games and stores\<close>

text \<open>The outcome of a finished game that player 1 has won, and a random source whose draws are all zero.\<close>

definition player1_wins :: "int \<rightharpoonup> real" where
  "player1_wins = [1 \<mapsto> 1, 2 \<mapsto> - 1]"

definition no_draws :: "nat \<Rightarrow> nat" where
  "no_draws i = 0"

text \<open>
  A small game. In state 0 player 1 has two moves: the first leads to the non-terminal
  state 1 and claims box \<open>(0, 0)\<close>, the second to the terminal state 2, a win for player 1.
  In state 1 player 2 has a single move, to the terminal state 3, which player 1 wins as
  well. \<open>neutral_board\<close> is the same game with no box ever claimed.
\<close>

definition capture_board :: "nat Board" where
  "capture_board =
     \<lparr>is_ended = (\<lambda>s. 2 \<le> s),
      next_state = (\<lambda>s a. if s = 0 then (if a = (0, 0, 0, 0) then 1 else 2) else 3),
      legal_actions = (\<lambda>s. if s = 0 then [(0, 0, 0, 0), (0, 0, 1, 1)]
                           else if s = 1 then [(1, 1, 0, 0)] else []),
      points_values = (\<lambda>s. if 2 \<le> s then Some player1_wins else None),
      current_player = (\<lambda>s. if s = 1 then 2 else 1),
      owned_boxes = (\<lambda>s RC. if s = 1 \<and> RC = (0, 0) then Some 1 else Some 0)\<rparr>"

definition neutral_board :: "nat Board" where
  "neutral_board = capture_board\<lparr>owned_boxes := (\<lambda>s RC. Some 0)\<rparr>"

text \<open>
  A game that ends after one move: state 0 has a single legal action, and every later state
  is terminal and won by player 1. \<open>one_move_store m\<close> is the tree that \<^verbatim>\<open>think\<close> has
  built for it after \<open>m\<close> iterations.
\<close>

definition one_move_board :: "nat Board" where
  "one_move_board =
     \<lparr>is_ended = (\<lambda>s. 0 < s),
      next_state = (\<lambda>s a. Suc s),
      legal_actions = (\<lambda>s. if s = 0 then [(0, 0, 0, 0)] else []),
      points_values = (\<lambda>s. if 0 < s then Some player1_wins else None),
      current_player = (\<lambda>s. if even s then 1 else 2),
      owned_boxes = (\<lambda>s RC. Some 0)\<rparr>"

definition one_move_store :: "nat \<Rightarrow> store" where
  "one_move_store m =
     [\<lparr>parent = None, parent_action = None, child_nodes = [((0, 0, 0, 0), 1)],
       untried_actions = [], wins = real m, visits = m\<rparr>,
      \<lparr>parent = Some 0, parent_action = Some (0, 0, 0, 0), child_nodes = [],
       untried_actions = [], wins = real m, visits = m\<rparr>]"

text \<open>A root with one child, each visited once.\<close>

definition two_node_store :: store where
  "two_node_store =
     [\<lparr>parent = None, parent_action = None, child_nodes = [((0, 0, 0, 0), 1)],
       untried_actions = [], wins = 0, visits = 1\<rparr>,
      \<lparr>parent = Some 0, parent_action = Some (0, 0, 0, 0), child_nodes = [],
       untried_actions = [], wins = 0, visits = 1\<rparr>]"

section \<open>Verification\<close>

subsection \<open>Basic facts\<close>

lemma and_then_Inr [simp]: "and_then (Inr x) f = f x"
  by (simp add: and_then_def)

lemma and_then_Inl [simp]: "and_then (Inl e) f = Inl e"
  by (simp add: and_then_def)

lemma deref_in [simp]: "r < length h \<Longrightarrow> deref h r = Inr (h ! r)"
  by (simp add: deref_def)

lemma deref_out [simp]: "\<not> r < length h \<Longrightarrow> deref h r = Inl DanglingRef"
  by (simp add: deref_def)

lemma ucb_value:
  assumes "c < length h" and "parent (h ! c) = Some p" and "p < length h"
    and "0 < visits (h ! c)" and "0 < visits (h ! p)"
  shows "ucb h c flag =
    Inr ((if flag then wins (h ! c) / real (visits (h ! c))
          else 1 - wins (h ! c) / real (visits (h ! c)))
         + 2 * sqrt (ln (real (visits (h ! p))) / real (visits (h ! c))))"
proof -
  have "0 \<le> ln (real (visits (h ! p))) / real (visits (h ! c))"
    using assms(4,5) by simp
  then have "\<not> ln (real (visits (h ! p))) / real (visits (h ! c)) < 0"
    by (simp only: not_less)
  then show ?thesis
    using assms
    by (simp add: ucb_def exploration_def py_truediv_def py_log_def py_sqrt_def
        explore_faction_def)
qed

subsection \<open>The score of the selection loop\<close>

lemma scan_children_argmax:
  fixes bot_identity :: int
  assumes un: "untried_actions cur = []"
    and kids: "\<forall>ac\<in>set cs. snd ac < length h \<and> 0 < visits (h ! snd ac)
             \<and> ucb h (snd ac) (bot_identity = current_player B state) = Inr (f (snd ac))"
  shows "(if \<exists>ac\<in>set cs. best < f (snd ac)
          then \<exists>i<length cs.
                 scan_children h B cur state bot_identity cs best bn ba
                   = Inr (Best (f (snd (cs ! i))) (Some (snd (cs ! i))) (Some (fst (cs ! i))))
                 \<and> best < f (snd (cs ! i))
                 \<and> (\<forall>j<length cs. f (snd (cs ! j)) \<le> f (snd (cs ! i)))
                 \<and> (\<forall>j<i. f (snd (cs ! j)) < f (snd (cs ! i)))
          else scan_children h B cur state bot_identity cs best bn ba = Inr (Best best bn ba))"
  using kids
proof (induction cs arbitrary: best bn ba)
  case Nil
  then show ?case by simp
next
  case (Cons ac cs)
  obtain a c where ac: "ac = (a, c)" by (cases ac)
  from Cons.prems ac have c: "c < length h" "0 < visits (h ! c)"
    and u: "ucb h c (bot_identity = current_player B state) = Inr (f c)"
    and rest: "\<forall>ac\<in>set cs. snd ac < length h \<and> 0 < visits (h ! snd ac)
             \<and> ucb h (snd ac) (bot_identity = current_player B state) = Inr (f (snd ac))"
    by simp_all
  let ?scan = "\<lambda>xs b n m. scan_children h B cur state bot_identity xs b n m"
  let ?good = "\<lambda>xs b n m i. ?scan xs b n m
                   = Inr (Best (f (snd (xs ! i))) (Some (snd (xs ! i))) (Some (fst (xs ! i))))
                 \<and> b < f (snd (xs ! i))
                 \<and> (\<forall>j<length xs. f (snd (xs ! j)) \<le> f (snd (xs ! i)))
                 \<and> (\<forall>j<i. f (snd (xs ! j)) < f (snd (xs ! i)))"
  show ?case
  proof (cases "best < f c")
    case True
    then have step: "?scan (ac # cs) best bn ba = ?scan cs (f c) (Some c) (Some a)"
      using ac c u un by simp
    have ex: "\<exists>d\<in>set (ac # cs). best < f (snd d)" using True ac by auto
    show ?thesis
    proof (cases "\<exists>d\<in>set cs. f c < f (snd d)")
      case False
      with Cons.IH [OF rest, of "f c" "Some c" "Some a"]
      have "?scan cs (f c) (Some c) (Some a) = Inr (Best (f c) (Some c) (Some a))"
        by simp
      with step have r: "?scan (ac # cs) best bn ba = Inr (Best (f c) (Some c) (Some a))"
        by (simp only:)
      have mx: "\<forall>j<length (ac # cs). f (snd ((ac # cs) ! j)) \<le> f c"
      proof (intro allI impI)
        fix j assume "j < length (ac # cs)"
        then show "f (snd ((ac # cs) ! j)) \<le> f c"
          using False ac by (cases j) (auto simp: not_less)
      qed
      have "0 < length (ac # cs) \<and> ?good (ac # cs) best bn ba 0"
        using r True mx ac by simp
      then have "\<exists>i<length (ac # cs). ?good (ac # cs) best bn ba i" by blast
      with ex show ?thesis by (simp only: if_True)
    next
      case True
      with Cons.IH [OF rest, of "f c" "Some c" "Some a"]
      obtain i where i: "i < length cs" and g: "?good cs (f c) (Some c) (Some a) i"
        by auto
      have mx: "\<forall>j<length (ac # cs). f (snd ((ac # cs) ! j)) \<le> f (snd (cs ! i))"
      proof (intro allI impI)
        fix j assume "j < length (ac # cs)"
        then show "f (snd ((ac # cs) ! j)) \<le> f (snd (cs ! i))"
          using g ac by (cases j) auto
      qed
      have fs: "\<forall>j<Suc i. f (snd ((ac # cs) ! j)) < f (snd (cs ! i))"
      proof (intro allI impI)
        fix j assume "j < Suc i"
        then show "f (snd ((ac # cs) ! j)) < f (snd (cs ! i))"
          using g ac by (cases j) auto
      qed
      have "best < f (snd (cs ! i))" using g \<open>best < f c\<close> by simp
      then have "Suc i < length (ac # cs) \<and> ?good (ac # cs) best bn ba (Suc i)"
        using step i g mx fs by simp
      then have "\<exists>i<length (ac # cs). ?good (ac # cs) best bn ba i" by blast
      with ex show ?thesis by (simp only: if_True)
    qed
  next
    case False
    then have step: "?scan (ac # cs) best bn ba = ?scan cs best bn ba"
      using ac c u un by simp
    show ?thesis
    proof (cases "\<exists>d\<in>set cs. best < f (snd d)")
      case nex: False
      with Cons.IH [OF rest, of best bn ba] have "?scan cs best bn ba = Inr (Best best bn ba)"
        by simp
      with step have "?scan (ac # cs) best bn ba = Inr (Best best bn ba)" by (simp only:)
      moreover have "\<not> (\<exists>d\<in>set (ac # cs). best < f (snd d))" using False nex ac by auto
      ultimately show ?thesis by (simp only: if_False)
    next
      case ex: True
      with Cons.IH [OF rest, of best bn ba]
      obtain i where i: "i < length cs" and g: "?good cs best bn ba i"
        by auto
      have cle: "f c < f (snd (cs ! i))" using False g by simp
      have mx: "\<forall>j<length (ac # cs). f (snd ((ac # cs) ! j)) \<le> f (snd (cs ! i))"
      proof (intro allI impI)
        fix j assume "j < length (ac # cs)"
        then show "f (snd ((ac # cs) ! j)) \<le> f (snd (cs ! i))"
          using g cle ac by (cases j) auto
      qed
      have fs: "\<forall>j<Suc i. f (snd ((ac # cs) ! j)) < f (snd (cs ! i))"
      proof (intro allI impI)
        fix j assume "j < Suc i"
        then show "f (snd ((ac # cs) ! j)) < f (snd (cs ! i))"
          using g cle ac by (cases j) auto
      qed
      have "Suc i < length (ac # cs) \<and> ?good (ac # cs) best bn ba (Suc i)"
        using step i g mx fs by simp
      then have "\<exists>i<length (ac # cs). ?good (ac # cs) best bn ba i" by blast
      moreover have "\<exists>d\<in>set (ac # cs). best < f (snd d)" using ex by auto
      ultimately show ?thesis by (simp only: if_True)
    qed
  qed
qed


text \<open>
  Claim C1. The loop of \<^verbatim>\<open>traverse_nodes\<close> over the children of a fully expanded node
  \<open>p\<close> scores a child by \<^verbatim>\<open>ucb(child, bot_identity == board.current_player(state))\<close>,
  where \<open>state\<close> is the state of \<open>p\<close>. When the children have \<open>visits > 0\<close> and
  \<open>p\<close> has \<open>visits > 0\<close> (so that the logarithm is defined), the loop ends with the
  first child of greatest score among those above the initial best, and that score is
  \<open>wins / visits + 2 * sqrt (ln (visits p) / visits)\<close> if the bot is to move at the state of
  \<open>p\<close>, and \<open>(1 - wins / visits) + 2 * sqrt (ln (visits p) / visits)\<close> if the opponent
  is. For a child \<open>c\<close> whose \<open>wins\<close> are set to \<open>w\<close> and to a greater \<open>w'\<close>,
  with its visits held fixed, the score that the loop computes for \<open>c\<close> strictly
  increases in the first case and strictly decreases in the second.
\<close>

theorem selector_ucb_perspective:
  fixes bot_identity :: int and score :: "bool \<Rightarrow> real \<Rightarrow> nat \<Rightarrow> nat \<Rightarrow> real"
  defines "score \<equiv> \<lambda>own w v pv.
      if own then w / real v + 2 * sqrt (ln (real pv) / real v)
      else (1 - w / real v) + 2 * sqrt (ln (real pv) / real v)"
  assumes p: "p < length h" and full: "untried_actions (h ! p) = []"
    and pv: "0 < visits (h ! p)"
    and kids: "\<forall>ac\<in>set cs. snd ac < length h \<and> parent (h ! snd ac) = Some p
                 \<and> 0 < visits (h ! snd ac)"
    and mem: "(a, c) \<in> set cs" and less: "w < w'"
  shows "(if \<exists>ac\<in>set cs. best < score (bot_identity = current_player B state)
                  (wins (h ! snd ac)) (visits (h ! snd ac)) (visits (h ! p))
          then \<exists>i<length cs.
                 scan_children h B (h ! p) state bot_identity cs best bn ba
                   = Inr (Best (score (bot_identity = current_player B state)
                                  (wins (h ! snd (cs ! i))) (visits (h ! snd (cs ! i)))
                                  (visits (h ! p)))
                            (Some (snd (cs ! i))) (Some (fst (cs ! i))))
                 \<and> (\<forall>j<length cs.
                       score (bot_identity = current_player B state)
                         (wins (h ! snd (cs ! j))) (visits (h ! snd (cs ! j))) (visits (h ! p))
                       \<le> score (bot_identity = current_player B state)
                           (wins (h ! snd (cs ! i))) (visits (h ! snd (cs ! i))) (visits (h ! p)))
                 \<and> (\<forall>j<i.
                       score (bot_identity = current_player B state)
                         (wins (h ! snd (cs ! j))) (visits (h ! snd (cs ! j))) (visits (h ! p))
                       < score (bot_identity = current_player B state)
                           (wins (h ! snd (cs ! i))) (visits (h ! snd (cs ! i))) (visits (h ! p)))
          else scan_children h B (h ! p) state bot_identity cs best bn ba
                 = Inr (Best best bn ba))
     \<and> scan_children (with_wins h c w) B (with_wins h c w ! p) state bot_identity
            [(a, c)] best bn ba
          = Inr (if best < score (bot_identity = current_player B state) w
                            (visits (h ! c)) (visits (h ! p))
                 then Best (score (bot_identity = current_player B state) w
                            (visits (h ! c)) (visits (h ! p))) (Some c) (Some a)
                 else Best best bn ba)
     \<and> scan_children (with_wins h c w') B (with_wins h c w' ! p) state bot_identity
            [(a, c)] best bn ba
          = Inr (if best < score (bot_identity = current_player B state) w'
                            (visits (h ! c)) (visits (h ! p))
                 then Best (score (bot_identity = current_player B state) w'
                            (visits (h ! c)) (visits (h ! p))) (Some c) (Some a)
                 else Best best bn ba)
     \<and> (if bot_identity = current_player B state
         then score True w (visits (h ! c)) (visits (h ! p))
                < score True w' (visits (h ! c)) (visits (h ! p))
         else score False w' (visits (h ! c)) (visits (h ! p))
                < score False w (visits (h ! c)) (visits (h ! p)))"
proof -
  let ?own = "bot_identity = current_player B state"
  from kids mem have c: "c < length h" "parent (h ! c) = Some p" "0 < visits (h ! c)"
    by auto
  have val: "ucb g x ?own = Inr (score ?own (wins (g ! x)) (visits (g ! x)) (visits (g ! q)))"
    if "x < length g" "parent (g ! x) = Some q" "q < length g" "0 < visits (g ! x)"
      "0 < visits (g ! q)" for g x q
    using ucb_value [OF that, of ?own] by (simp add: score_def)
  have A: "\<forall>ac\<in>set cs. snd ac < length h \<and> 0 < visits (h ! snd ac)
      \<and> ucb h (snd ac) ?own
          = Inr (score ?own (wins (h ! snd ac)) (visits (h ! snd ac)) (visits (h ! p)))"
    using kids val p pv by auto
  let ?sc = "\<lambda>x. score ?own (wins (h ! x)) (visits (h ! x)) (visits (h ! p))"
  let ?scan = "scan_children h B (h ! p) state bot_identity cs best bn ba"
  have first: "if \<exists>ac\<in>set cs. best < ?sc (snd ac)
      then \<exists>i<length cs.
             ?scan = Inr (Best (?sc (snd (cs ! i))) (Some (snd (cs ! i))) (Some (fst (cs ! i))))
             \<and> (\<forall>j<length cs. ?sc (snd (cs ! j)) \<le> ?sc (snd (cs ! i)))
             \<and> (\<forall>j<i. ?sc (snd (cs ! j)) < ?sc (snd (cs ! i)))
      else ?scan = Inr (Best best bn ba)"
  proof (cases "\<exists>ac\<in>set cs. best < ?sc (snd ac)")
    case True
    with scan_children_argmax [OF full A, of best bn ba]
    obtain i where "i < length cs"
      "?scan = Inr (Best (?sc (snd (cs ! i))) (Some (snd (cs ! i))) (Some (fst (cs ! i))))"
      "\<forall>j<length cs. ?sc (snd (cs ! j)) \<le> ?sc (snd (cs ! i))"
      "\<forall>j<i. ?sc (snd (cs ! j)) < ?sc (snd (cs ! i))"
      by (simp only: if_True) blast
    then have "\<exists>i<length cs.
             ?scan = Inr (Best (?sc (snd (cs ! i))) (Some (snd (cs ! i))) (Some (fst (cs ! i))))
             \<and> (\<forall>j<length cs. ?sc (snd (cs ! j)) \<le> ?sc (snd (cs ! i)))
             \<and> (\<forall>j<i. ?sc (snd (cs ! j)) < ?sc (snd (cs ! i)))"
      by blast
    with True show ?thesis by (simp only: if_True)
  next
    case False
    with scan_children_argmax [OF full A, of best bn ba]
    have "?scan = Inr (Best best bn ba)" by (simp only: if_False)
    with False show ?thesis by (simp only: if_False)
  qed
  have single: "scan_children (with_wins h c u) B (with_wins h c u ! p) state bot_identity
            [(a, c)] best bn ba
          = Inr (if best < score ?own u (visits (h ! c)) (visits (h ! p))
                 then Best (score ?own u (visits (h ! c)) (visits (h ! p))) (Some c) (Some a)
                 else Best best bn ba)" for u
  proof -
    let ?g = "with_wins h c u"
    have len: "c < length ?g" "p < length ?g" using c(1) p by (simp_all add: with_wins_def)
    have par: "parent (?g ! c) = Some p" using c(1,2) by (simp add: with_wins_def)
    have vc: "visits (?g ! c) = visits (h ! c)" using c(1) by (simp add: with_wins_def)
    have vp: "visits (?g ! p) = visits (h ! p)"
      using c(1) p by (cases "p = c") (simp_all add: with_wins_def)
    have wc: "wins (?g ! c) = u" using c(1) by (simp add: with_wins_def)
    have un: "untried_actions (?g ! p) = []"
      using c(1) p full by (cases "p = c") (simp_all add: with_wins_def)
    have "ucb ?g c ?own = Inr (score ?own u (visits (h ! c)) (visits (h ! p)))"
      using val [OF len(1) par len(2)] c(3) pv by (simp add: vc vp wc)
    then show ?thesis
      using len(1) vc c(3) un by simp
  qed
  have "w / real (visits (h ! c)) < w' / real (visits (h ! c))"
    using c(3) less by (simp add: divide_strict_right_mono)
  then have mono: "if ?own
         then score True w (visits (h ! c)) (visits (h ! p))
                < score True w' (visits (h ! c)) (visits (h ! p))
         else score False w' (visits (h ! c)) (visits (h ! p))
                < score False w (visits (h ! c)) (visits (h ! p))"
    by (simp add: score_def)
  show ?thesis
    by (rule conjI [OF first conjI [OF single [of w] conjI [OF single [of w'] mono]]])
qed



theorem selector_ucb_perspective_witness:
  "current_player capture_board 0 = 1
   \<and> scan_children two_node_store capture_board (two_node_store ! 0) 0 1
        (child_nodes (two_node_store ! 0)) (- 999999) None None
      = Inr (Best 0 (Some 1) (Some (0, 0, 0, 0)))
   \<and> scan_children (with_wins two_node_store 1 1) capture_board
        (with_wins two_node_store 1 1 ! 0) 0 1 [((0, 0, 0, 0), 1)] (- 999999) None None
      = Inr (Best 1 (Some 1) (Some (0, 0, 0, 0)))
   \<and> current_player capture_board 1 = 2
   \<and> scan_children two_node_store capture_board (two_node_store ! 0) 1 1
        (child_nodes (two_node_store ! 0)) (- 999999) None None
      = Inr (Best 1 (Some 1) (Some (0, 0, 0, 0)))
   \<and> scan_children (with_wins two_node_store 1 1) capture_board
        (with_wins two_node_store 1 1 ! 0) 1 1 [((0, 0, 0, 0), 1)] (- 999999) None None
      = Inr (Best 0 (Some 1) (Some (0, 0, 0, 0)))"
proof -
  let ?cs = "child_nodes (two_node_store ! 0)"
  have p: "(0::nat) < length two_node_store"
    and full: "untried_actions (two_node_store ! 0) = []"
    and pv: "0 < visits (two_node_store ! 0)"
    and kids: "\<forall>ac\<in>set ?cs. snd ac < length two_node_store
        \<and> parent (two_node_store ! snd ac) = Some 0 \<and> 0 < visits (two_node_store ! snd ac)"
    and mem: "((0, 0, 0, 0), 1) \<in> set ?cs"
    by (simp_all add: two_node_store_def)
  have less: "(0::real) < 1" by simp
  have cs: "?cs = [((0, 0, 0, 0), 1)]" by (simp add: two_node_store_def)
  have v: "visits (two_node_store ! 1) = 1" "visits (two_node_store ! 0) = 1"
    "wins (two_node_store ! 1) = 0"
    by (simp_all add: two_node_store_def)
  have own: "current_player capture_board 0 = 1" and opp: "current_player capture_board 1 = 2"
    by (simp_all add: capture_board_def)
  note t = selector_ucb_perspective [OF p full pv kids mem less,
      where B = capture_board and bot_identity = 1 and best = "- 999999"
        and bn = None and ba = None]
  from t [where state = 0]
  have a: "scan_children two_node_store capture_board (two_node_store ! 0) 0 1
        ?cs (- 999999) None None = Inr (Best 0 (Some 1) (Some (0, 0, 0, 0)))"
    and b: "scan_children (with_wins two_node_store 1 1) capture_board
        (with_wins two_node_store 1 1 ! 0) 0 1 [((0, 0, 0, 0), 1)] (- 999999) None None
      = Inr (Best 1 (Some 1) (Some (0, 0, 0, 0)))"
    by (simp_all add: two_node_store_def capture_board_def with_wins_def)
  from t [where state = 1]
  have c: "scan_children two_node_store capture_board (two_node_store ! 0) 1 1
        ?cs (- 999999) None None = Inr (Best 1 (Some 1) (Some (0, 0, 0, 0)))"
    and d: "scan_children (with_wins two_node_store 1 1) capture_board
        (with_wins two_node_store 1 1 ! 0) 1 1 [((0, 0, 0, 0), 1)] (- 999999) None None
      = Inr (Best 0 (Some 1) (Some (0, 0, 0, 0)))"
    by (simp_all add: two_node_store_def capture_board_def with_wins_def)
  from a b c d own opp show ?thesis by simp
qed

subsection \<open>Backpropagation along the parent chain\<close>

lemma parent_chain_same_parents:
  assumes "length h' = length h" and "\<And>m. m < length h \<Longrightarrow> parent (h' ! m) = parent (h ! m)"
  shows "parent_chain h' n ns = parent_chain h n ns"
  using assms
proof (induction ns arbitrary: n)
  case Nil
  then show ?case by simp
next
  case (Cons m ms)
  show ?case
  proof (cases "m = n \<and> n < length h")
    case True
    then show ?thesis
      using Cons by (auto split: option.splits)
  next
    case False
    then show ?thesis using Cons.prems by auto
  qed
qed

lemma parent_bump [simp]: "parent (bump v nd) = parent nd"
  by (simp add: bump_def)

lemma parent_chain_bump:
  "parent_chain (h[n := bump v (h ! n)]) p ms = parent_chain h p ms"
proof (rule parent_chain_same_parents)
  show "length (h[n := bump v (h ! n)]) = length h" by simp
next
  fix m assume "m < length h"
  then show "parent (h[n := bump v (h ! n)] ! m) = parent (h ! m)"
    by (cases "m = n") simp_all
qed

lemma backpropagate_fold:
  "parent_chain h n ns \<Longrightarrow> backpropagate h (Some n) v = Some (Inr (bump_all v ns h))"
proof (induction ns arbitrary: h n)
  case Nil
  then show ?case by simp
next
  case (Cons m ms)
  then have mn: "m = n" and n: "n < length h" by simp_all
  show ?case
  proof (cases "parent (h ! n)")
    case None
    with Cons.prems have "ms = []" by simp
    with None n mn show ?thesis
      by (subst backpropagate.simps) (simp add: bump_all_def)
  next
    case (Some p)
    with Cons.prems have "parent_chain h p ms" by simp
    then have "parent_chain (h[n := bump v (h ! n)]) p ms"
      by (simp add: parent_chain_bump)
    from Cons.IH [OF this] Some n mn show ?thesis
      by (subst backpropagate.simps) (simp add: bump_all_def)
  qed
qed

lemma parent_chain_unique:
  "parent_chain h n xs \<Longrightarrow> parent_chain h n ys \<Longrightarrow> xs = ys"
proof (induction xs arbitrary: n ys)
  case Nil
  then show ?case by simp
next
  case (Cons x xs)
  then obtain y ys' where ys: "ys = y # ys'" by (cases ys) auto
  with Cons.prems have xy: "x = n" "y = n" by simp_all
  show ?case
  proof (cases "parent (h ! n)")
    case None
    with Cons.prems ys show ?thesis by simp
  next
    case (Some p)
    with Cons.prems ys have "parent_chain h p xs" "parent_chain h p ys'" by simp_all
    then have "xs = ys'" by (rule Cons.IH)
    with xy ys show ?thesis by simp
  qed
qed

lemma parent_chain_suffix:
  "parent_chain h n ns \<Longrightarrow> m \<in> set ns \<Longrightarrow> \<exists>pre suf. ns = pre @ suf \<and> parent_chain h m suf"
proof (induction ns arbitrary: n)
  case Nil
  then show ?case by simp
next
  case (Cons x xs)
  show ?case
  proof (cases "m = x")
    case True
    with Cons.prems have "x # xs = [] @ (x # xs) \<and> parent_chain h m (x # xs)" by simp
    then show ?thesis by blast
  next
    case False
    with Cons.prems have mx: "m \<in> set xs" by simp
    then have "xs \<noteq> []" by auto
    with Cons.prems obtain p where "parent_chain h p xs"
      by (auto split: option.splits)
    from Cons.IH [OF this mx] obtain pre suf where "xs = pre @ suf" "parent_chain h m suf"
      by blast
    then have "x # xs = (x # pre) @ suf \<and> parent_chain h m suf" by simp
    then show ?thesis by blast
  qed
qed

lemma parent_chain_distinct: "parent_chain h n ns \<Longrightarrow> distinct ns"
proof (induction ns arbitrary: n)
  case Nil
  then show ?case by simp
next
  case (Cons x xs)
  then have xn: "x = n" by simp
  show ?case
  proof (cases "parent (h ! n)")
    case None
    with Cons.prems show ?thesis by simp
  next
    case (Some p)
    with Cons.prems have ch: "parent_chain h p xs" by simp
    then have d: "distinct xs" by (rule Cons.IH)
    have "n \<notin> set xs"
    proof
      assume "n \<in> set xs"
      from parent_chain_suffix [OF ch this] obtain pre suf
        where xs: "xs = pre @ suf" and suf: "parent_chain h n suf" by blast
      from Cons.prems xn have "parent_chain h n (n # xs)" by simp
      from parent_chain_unique [OF suf this] have "suf = n # xs" .
      with xs have "length xs = length pre + Suc (length xs)" by simp
      then show False by simp
    qed
    with d xn show ?thesis by simp
  qed
qed

lemma parent_chain_in_store: "parent_chain h n ns \<Longrightarrow> m \<in> set ns \<Longrightarrow> m < length h"
proof (induction ns arbitrary: n)
  case Nil
  then show ?case by simp
next
  case (Cons x xs)
  show ?case
  proof (cases "m = x")
    case True
    with Cons.prems show ?thesis by simp
  next
    case False
    with Cons.prems have mx: "m \<in> set xs" by simp
    then have "xs \<noteq> []" by auto
    with Cons.prems obtain p where "parent_chain h p xs"
      by (auto split: option.splits)
    from Cons.IH [OF this mx] show ?thesis .
  qed
qed

lemma length_bump_all [simp]: "length (bump_all v ns h) = length h"
  unfolding bump_all_def by (induction ns arbitrary: h) simp_all

lemma nth_bump_all:
  "distinct ns \<Longrightarrow> \<forall>m\<in>set ns. m < length h \<Longrightarrow> m < length h \<Longrightarrow>
   bump_all v ns h ! m = (if m \<in> set ns then bump v (h ! m) else h ! m)"
  unfolding bump_all_def
proof (induction ns arbitrary: h)
  case Nil
  then show ?case by simp
next
  case (Cons x xs)
  let ?g = "h[x := bump v (h ! x)]"
  have "fold (\<lambda>m g. g[m := bump v (g ! m)]) xs ?g ! m =
        (if m \<in> set xs then bump v (?g ! m) else ?g ! m)"
    using Cons.prems by (intro Cons.IH) simp_all
  then show ?case
    using Cons.prems by (auto simp: nth_list_update)
qed

text \<open>
  Claim C2. When the parent references from the node \<open>n\<close> lead to a root along the path
  \<open>ns\<close>, \<^verbatim>\<open>backpropagate(n, v)\<close> returns, and in the resulting store every node on the
  path (from \<open>n\<close> to the root, both included) has \<open>v\<close> added to its \<open>wins\<close> and \<open>1\<close>
  added to its \<open>visits\<close>, with no other field changed; every node off the path is unchanged.
\<close>

theorem backpropagate_path:
  assumes "parent_chain h n ns"
  shows "\<exists>h'. backpropagate h (Some n) v = Some (Inr h') \<and> length h' = length h
     \<and> hd ns = n \<and> parent (h ! last ns) = None
     \<and> (\<forall>m<length h. h' ! m =
           (if m \<in> set ns
            then (h ! m)\<lparr>wins := wins (h ! m) + v, visits := visits (h ! m) + 1\<rparr>
            else h ! m))"
proof -
  have d: "distinct ns" using assms by (rule parent_chain_distinct)
  have r: "\<forall>m\<in>set ns. m < length h" using assms by (blast intro: parent_chain_in_store)
  have hd: "hd ns = n" using assms by (cases ns) simp_all
  have lst: "parent (h ! last ns) = None"
    using assms
  proof (induction ns arbitrary: n)
    case Nil
    then show ?case by simp
  next
    case (Cons x xs)
    then show ?case by (cases xs) (auto split: option.splits)
  qed
  have "\<forall>m<length h. bump_all v ns h ! m =
           (if m \<in> set ns
            then (h ! m)\<lparr>wins := wins (h ! m) + v, visits := visits (h ! m) + 1\<rparr>
            else h ! m)"
    using nth_bump_all [OF d r] by (simp add: bump_def)
  with backpropagate_fold [OF assms] hd lst show ?thesis by simp
qed

theorem backpropagate_path_witness:
  "parent_chain two_node_store 1 [1, 0] \<and>
   (\<exists>h'. backpropagate two_node_store (Some 1) 1 = Some (Inr h') \<and> length h' = 2
      \<and> wins (h' ! 0) = 1 \<and> visits (h' ! 0) = 2 \<and> wins (h' ! 1) = 1 \<and> visits (h' ! 1) = 2)"
proof -
  have c: "parent_chain two_node_store 1 [1, 0]"
    by (simp add: two_node_store_def)
  from backpropagate_path [OF c, of 1] obtain h'
    where b: "backpropagate two_node_store (Some 1) 1 = Some (Inr h')"
      and l: "length h' = length two_node_store"
      and n: "\<forall>m<length two_node_store. h' ! m =
           (if m \<in> set [1, 0]
            then (two_node_store ! m)\<lparr>wins := wins (two_node_store ! m) + 1,
                   visits := visits (two_node_store ! m) + 1\<rparr>
            else two_node_store ! m)"
    by blast
  have "h' ! 0 = (two_node_store ! 0)\<lparr>wins := wins (two_node_store ! 0) + 1,
                   visits := visits (two_node_store ! 0) + 1\<rparr>"
    using n by (simp add: two_node_store_def)
  moreover have "h' ! 1 = (two_node_store ! 1)\<lparr>wins := wins (two_node_store ! 1) + 1,
                   visits := visits (two_node_store ! 1) + 1\<rparr>"
    using n by (simp add: two_node_store_def)
  ultimately show ?thesis
    using c b l by (simp add: two_node_store_def)
qed

subsection \<open>Expansion\<close>

text \<open>
  Claim C8. For a node with at least one untried action, \<^verbatim>\<open>expand_leaf\<close> removes the
  last element \<open>a\<close> of \<^verbatim>\<open>untried_actions\<close> (the most recently added one), creates a
  node whose untried actions are the legal actions of \<open>next_state state a\<close>, registers it
  under \<open>a\<close> in the children of the node, changes no other node, and returns the new node
  with the next state. For a node without untried actions it returns the node and the
  state and leaves the store as it is.
\<close>

theorem expand_leaf_effect:
  assumes "node < length h"
  shows "(untried_actions (h ! node) = us @ [a] \<longrightarrow>
           (\<exists>h'. expand_leaf h B node state = Inr (h', length h, next_state B state a)
              \<and> length h' = Suc (length h)
              \<and> h' ! node = (h ! node)\<lparr>untried_actions := us,
                    child_nodes := AList.update a (length h) (child_nodes (h ! node))\<rparr>
              \<and> map_of (child_nodes (h' ! node)) a = Some (length h)
              \<and> h' ! length h =
                  \<lparr>parent = Some node, parent_action = Some a, child_nodes = [],
                   untried_actions = legal_actions B (next_state B state a),
                   wins = 0, visits = 0\<rparr>
              \<and> (\<forall>m<length h. m \<noteq> node \<longrightarrow> h' ! m = h ! m)))
       \<and> (untried_actions (h ! node) = [] \<longrightarrow> expand_leaf h B node state = Inr (h, node, state))"
  using assms
  by (auto simp: expand_leaf_def Let_def new_node_def nth_append update_conv')

theorem expand_leaf_effect_witness:
  "(\<exists>h'. expand_leaf (root_store capture_board 0) capture_board 0 0 = Inr (h', 1, 2)
      \<and> untried_actions (h' ! 0) = [(0, 0, 0, 0)]
      \<and> child_nodes (h' ! 0) = [((0, 0, 1, 1), 1)]
      \<and> h' ! 1 = \<lparr>parent = Some 0, parent_action = Some (0, 0, 1, 1), child_nodes = [],
                   untried_actions = [], wins = 0, visits = 0\<rparr>)
   \<and> expand_leaf two_node_store capture_board 1 2 = Inr (two_node_store, 1, 2)"
proof -
  have 1: "(0::nat) < length (root_store capture_board 0)"
    by (simp add: root_store_def)
  have 2: "(1::nat) < length two_node_store"
    by (simp add: two_node_store_def)
  have u: "untried_actions (root_store capture_board 0 ! 0) = [(0, 0, 0, 0)] @ [(0, 0, 1, 1)]"
    by (simp add: root_store_def capture_board_def new_node_def)
  have v: "untried_actions (two_node_store ! 1) = []"
    by (simp add: two_node_store_def)
  from expand_leaf_effect [OF 1, of "[(0, 0, 0, 0)]" "(0, 0, 1, 1)" capture_board 0] u
    expand_leaf_effect [OF 2, of "[]" "(0, 0, 0, 0)" capture_board 2] v
  show ?thesis
    by (auto simp: root_store_def capture_board_def new_node_def)
qed

subsection \<open>Recommendation\<close>

lemma best_rate_scan_general:
  assumes "\<forall>c\<in>set cs. c < length h \<and> 0 < visits (h ! c)"
  shows "(if \<exists>c\<in>set cs. b < rate h c
          then \<exists>i<length cs. best_rate_scan h cs a b = Inr (parent_action (h ! (cs ! i)))
                 \<and> b < rate h (cs ! i)
                 \<and> (\<forall>j<length cs. rate h (cs ! j) \<le> rate h (cs ! i))
                 \<and> (\<forall>j<i. rate h (cs ! j) < rate h (cs ! i))
          else best_rate_scan h cs a b = Inr a)"
  using assms
proof (induction cs arbitrary: a b)
  case Nil
  then show ?case by simp
next
  case (Cons c cs)
  then have c: "c < length h" "0 < visits (h ! c)"
    and rest: "\<forall>c\<in>set cs. c < length h \<and> 0 < visits (h ! c)" by simp_all
  have div: "py_truediv (wins (h ! c)) (real (visits (h ! c))) = Inr (rate h c)"
    using c by (simp add: py_truediv_def rate_def)
  show ?case
  proof (cases "b < rate h c")
    case True
    then have step: "best_rate_scan h (c # cs) a b =
        best_rate_scan h cs (parent_action (h ! c)) (rate h c)"
      using c div by simp
    show ?thesis
    proof (cases "\<exists>d\<in>set cs. rate h c < rate h d")
      case False
      with Cons.IH [OF rest, of "rate h c" "parent_action (h ! c)"]
      have "best_rate_scan h cs (parent_action (h ! c)) (rate h c) = Inr (parent_action (h ! c))"
        by simp
      moreover have "\<forall>j<length (c # cs). rate h ((c # cs) ! j) \<le> rate h c"
      proof (intro allI impI)
        fix j assume "j < length (c # cs)"
        then show "rate h ((c # cs) ! j) \<le> rate h c"
          using False by (cases j) (auto simp: not_less)
      qed
      ultimately have "0 < length (c # cs) \<and>
          best_rate_scan h (c # cs) a b = Inr (parent_action (h ! ((c # cs) ! 0)))
          \<and> b < rate h ((c # cs) ! 0)
          \<and> (\<forall>j<length (c # cs). rate h ((c # cs) ! j) \<le> rate h ((c # cs) ! 0))
          \<and> (\<forall>j<0. rate h ((c # cs) ! j) < rate h ((c # cs) ! 0))"
        using step True by simp
      then have "\<exists>i<length (c # cs).
          best_rate_scan h (c # cs) a b = Inr (parent_action (h ! ((c # cs) ! i)))
          \<and> b < rate h ((c # cs) ! i)
          \<and> (\<forall>j<length (c # cs). rate h ((c # cs) ! j) \<le> rate h ((c # cs) ! i))
          \<and> (\<forall>j<i. rate h ((c # cs) ! j) < rate h ((c # cs) ! i))"
        by blast
      moreover have "\<exists>d\<in>set (c # cs). b < rate h d" using True by auto
      ultimately show ?thesis by (simp only: if_True)
    next
      case ex: True
      with Cons.IH [OF rest, of "rate h c" "parent_action (h ! c)"]
      obtain i where i: "i < length cs"
        and r: "best_rate_scan h cs (parent_action (h ! c)) (rate h c)
                 = Inr (parent_action (h ! (cs ! i)))"
        and gt: "rate h c < rate h (cs ! i)"
        and mx: "\<forall>j<length cs. rate h (cs ! j) \<le> rate h (cs ! i)"
        and fst: "\<forall>j<i. rate h (cs ! j) < rate h (cs ! i)"
        by auto
      have "\<forall>j<length (c # cs). rate h ((c # cs) ! j) \<le> rate h (cs ! i)"
      proof (intro allI impI)
        fix j assume "j < length (c # cs)"
        then show "rate h ((c # cs) ! j) \<le> rate h (cs ! i)"
          using mx gt by (cases j) auto
      qed
      moreover have "\<forall>j<Suc i. rate h ((c # cs) ! j) < rate h (cs ! i)"
      proof (intro allI impI)
        fix j assume "j < Suc i"
        then show "rate h ((c # cs) ! j) < rate h (cs ! i)"
          using fst gt by (cases j) auto
      qed
      ultimately have "Suc i < length (c # cs) \<and>
          best_rate_scan h (c # cs) a b = Inr (parent_action (h ! ((c # cs) ! Suc i)))
          \<and> b < rate h ((c # cs) ! Suc i)
          \<and> (\<forall>j<length (c # cs). rate h ((c # cs) ! j) \<le> rate h ((c # cs) ! Suc i))
          \<and> (\<forall>j<Suc i. rate h ((c # cs) ! j) < rate h ((c # cs) ! Suc i))"
        using step True i r gt by simp
      then have "\<exists>i<length (c # cs).
          best_rate_scan h (c # cs) a b = Inr (parent_action (h ! ((c # cs) ! i)))
          \<and> b < rate h ((c # cs) ! i)
          \<and> (\<forall>j<length (c # cs). rate h ((c # cs) ! j) \<le> rate h ((c # cs) ! i))
          \<and> (\<forall>j<i. rate h ((c # cs) ! j) < rate h ((c # cs) ! i))"
        by blast
      moreover have "\<exists>d\<in>set (c # cs). b < rate h d" using True by auto
      ultimately show ?thesis by (simp only: if_True)
    qed
  next
    case False
    then have step: "best_rate_scan h (c # cs) a b = best_rate_scan h cs a b"
      using c div by simp
    show ?thesis
    proof (cases "\<exists>d\<in>set cs. b < rate h d")
      case nex: False
      with Cons.IH [OF rest, of b a] have "best_rate_scan h cs a b = Inr a" by simp
      moreover have "\<not> (\<exists>d\<in>set (c # cs). b < rate h d)" using False nex by auto
      ultimately show ?thesis using step by (simp only: if_False)
    next
      case ex: True
      with Cons.IH [OF rest, of b a]
      obtain i where i: "i < length cs"
        and r: "best_rate_scan h cs a b = Inr (parent_action (h ! (cs ! i)))"
        and gt: "b < rate h (cs ! i)"
        and mx: "\<forall>j<length cs. rate h (cs ! j) \<le> rate h (cs ! i)"
        and fst: "\<forall>j<i. rate h (cs ! j) < rate h (cs ! i)"
        by auto
      have cle: "rate h c < rate h (cs ! i)" using False gt by simp
      have "\<forall>j<length (c # cs). rate h ((c # cs) ! j) \<le> rate h (cs ! i)"
      proof (intro allI impI)
        fix j assume "j < length (c # cs)"
        then show "rate h ((c # cs) ! j) \<le> rate h (cs ! i)"
          using mx cle by (cases j) auto
      qed
      moreover have "\<forall>j<Suc i. rate h ((c # cs) ! j) < rate h (cs ! i)"
      proof (intro allI impI)
        fix j assume "j < Suc i"
        then show "rate h ((c # cs) ! j) < rate h (cs ! i)"
          using fst cle by (cases j) auto
      qed
      ultimately have "Suc i < length (c # cs) \<and>
          best_rate_scan h (c # cs) a b = Inr (parent_action (h ! ((c # cs) ! Suc i)))
          \<and> b < rate h ((c # cs) ! Suc i)
          \<and> (\<forall>j<length (c # cs). rate h ((c # cs) ! j) \<le> rate h ((c # cs) ! Suc i))
          \<and> (\<forall>j<Suc i. rate h ((c # cs) ! j) < rate h ((c # cs) ! Suc i))"
        using step i r gt by simp
      then have "\<exists>i<length (c # cs).
          best_rate_scan h (c # cs) a b = Inr (parent_action (h ! ((c # cs) ! i)))
          \<and> b < rate h ((c # cs) ! i)
          \<and> (\<forall>j<length (c # cs). rate h ((c # cs) ! j) \<le> rate h ((c # cs) ! i))
          \<and> (\<forall>j<i. rate h ((c # cs) ! j) < rate h ((c # cs) ! i))"
        by blast
      moreover have "\<exists>d\<in>set (c # cs). b < rate h d" using ex by auto
      ultimately show ?thesis by (simp only: if_True)
    qed
  qed
qed

lemma get_best_action_above_sentinel:
  assumes "root_node < length h"
    and "cs = map snd (child_nodes (h ! root_node))"
    and "\<forall>c\<in>set cs. c < length h \<and> 0 < visits (h ! c)"
    and "\<exists>c\<in>set cs. - 999999 < rate h c"
  shows "\<exists>i<length cs. get_best_action h root_node = Inr (parent_action (h ! (cs ! i)))
           \<and> 0 < visits (h ! (cs ! i))
           \<and> (\<forall>j<length cs. rate h (cs ! j) \<le> rate h (cs ! i))
           \<and> (\<forall>j<i. rate h (cs ! j) < rate h (cs ! i))"
proof -
  from best_rate_scan_general [OF assms(3), of "- 999999" None] assms(4)
  obtain i where i: "i < length cs"
    and r: "best_rate_scan h cs None (- 999999) = Inr (parent_action (h ! (cs ! i)))"
    and mx: "\<forall>j<length cs. rate h (cs ! j) \<le> rate h (cs ! i)"
    and fst: "\<forall>j<i. rate h (cs ! j) < rate h (cs ! i)"
    by auto
  have "get_best_action h root_node = best_rate_scan h cs None (- 999999)"
    using assms(1,2) by (simp add: get_best_action_def)
  moreover have "0 < visits (h ! (cs ! i))" using assms(3) i by simp
  ultimately show ?thesis using i r mx fst by auto
qed

text \<open>
  Claim C5, as stated, fails: for a root without children the loop body never runs and
  \<^verbatim>\<open>get_best_action\<close> returns the initial value \<^verbatim>\<open>None\<close> of \<^verbatim>\<open>action\<close> as an
  ordinary result; no exception is raised.
\<close>

theorem get_best_action_no_children_counterexample:
  "child_nodes (root_store capture_board 2 ! 0) = []
   \<and> get_best_action (root_store capture_board 2) 0 = Inr None"
  by (simp add: get_best_action_def root_store_def new_node_def)

text \<open>
  Claim C5, amended. Requesting a recommendation from a root that has no children returns
  \<^verbatim>\<open>None\<close> normally, without raising an error.
\<close>

theorem get_best_action_no_children:
  assumes "root_node < length h" and "child_nodes (h ! root_node) = []"
  shows "get_best_action h root_node = Inr None"
  using assms by (simp add: get_best_action_def)

theorem get_best_action_no_children_witness:
  "0 < length [new_node None None []] \<and> child_nodes ([new_node None None []] ! 0) = []
   \<and> get_best_action [new_node None None []] 0 = Inr None"
  using get_best_action_no_children [of 0 "[new_node None None []]"]
  by (simp add: new_node_def)

subsection \<open>Rollout\<close>

lemma judge_Win_iff:
  "judge B state a = Inr Win \<longleftrightarrow>
   (\<exists>score. points_values B (next_state B state a) = Some score
      \<and> score (current_player B state) = Some 1)"
  by (auto simp: judge_def capture_check_def Let_def split: option.splits prod.splits if_splits)

lemma judge_Loss_iff:
  "judge B state a = Inr Loss \<longleftrightarrow>
   (\<exists>score. points_values B (next_state B state a) = Some score
      \<and> score (current_player B state) = Some (- 1))"
  by (auto simp: judge_def capture_check_def Let_def split: option.splits prod.splits if_splits)

lemma other_player_neq: "(3::int) - p \<noteq> p"
  by presburger

lemma judge_Handover_iff:
  "judge B state (R, C, r, c) = Inr Handover \<longleftrightarrow>
   (owned_boxes B (next_state B state (R, C, r, c)) (R, C) = Some (3 - current_player B state)
    \<and> (case points_values B (next_state B state (R, C, r, c)) of
         None \<Rightarrow> True
       | Some score \<Rightarrow> \<exists>v. score (current_player B state) = Some v \<and> v \<noteq> 1 \<and> v \<noteq> - 1))"
  using other_player_neq [of "current_player B state"]
  by (auto simp: judge_def capture_check_def Let_def split: option.splits prod.splits if_splits)

lemma judge_Capture_iff:
  "judge B state (R, C, r, c) = Inr Capture \<longleftrightarrow>
   (owned_boxes B (next_state B state (R, C, r, c)) (R, C) = Some (current_player B state)
    \<and> (case points_values B (next_state B state (R, C, r, c)) of
         None \<Rightarrow> True
       | Some score \<Rightarrow> \<exists>v. score (current_player B state) = Some v \<and> v \<noteq> 1 \<and> v \<noteq> - 1))"
  by (auto simp: judge_def capture_check_def Let_def split: option.splits prod.splits if_splits)

lemma scan_actions_skip:
  assumes "\<forall>a\<in>set pre. judge B state a = Inr Loss \<or> judge B state a = Inr Handover
             \<or> judge B state a = Inr Neutral"
  shows "scan_actions B state (pre @ rest) valid =
         scan_actions B state rest (valid @ filter (\<lambda>a. judge B state a = Inr Neutral) pre)"
  using assms
proof (induction pre arbitrary: valid)
  case Nil
  then show ?case by simp
next
  case (Cons a pre)
  then have "judge B state a = Inr Loss \<or> judge B state a = Inr Handover
             \<or> judge B state a = Inr Neutral" by simp
  then show ?case
    using Cons by auto
qed

lemma scan_actions_all_excluded:
  assumes "\<forall>a\<in>set acts. judge B state a = Inr Loss \<or> judge B state a = Inr Handover"
  shows "scan_actions B state acts valid = Inr (None, valid)"
proof -
  have "scan_actions B state (acts @ []) valid =
        scan_actions B state [] (valid @ filter (\<lambda>a. judge B state a = Inr Neutral) acts)"
    using assms by (intro scan_actions_skip) auto
  moreover have "filter (\<lambda>a. judge B state a = Inr Neutral) acts = []"
    using assms by (auto simp: filter_empty_conv)
  ultimately show ?thesis by simp
qed

text \<open>
  Claim C3, as stated, fails: the loop over the legal actions stops at the first action
  that wins the game or claims its box. In state 0 of the example game the second legal
  action wins the game for the player to move, but the first one claims box \<open>(0, 0)\<close>
  without ending the game; the loop breaks there, and the rollout applies the first action
  and continues from state 1.
\<close>

theorem rollout_win_counterexample:
  "legal_actions capture_board 0 = [(0, 0, 0, 0), (0, 0, 1, 1)]
   \<and> current_player capture_board 0 = 1
   \<and> points_values capture_board (next_state capture_board 0 (0, 0, 1, 1)) = Some player1_wins
   \<and> player1_wins 1 = Some 1
   \<and> points_values capture_board (next_state capture_board 0 (0, 0, 0, 0)) = None
   \<and> judge capture_board 0 (0, 0, 0, 0) = Inr Capture
   \<and> choose_action capture_board 0 no_draws 0 = Inr ((0, 0, 0, 0), 0)
   \<and> rollout capture_board 0 no_draws 0 = rollout capture_board 1 no_draws 0"
proof -
  have j: "judge capture_board 0 (0, 0, 0, 0) = Inr Capture"
    by (simp add: judge_def capture_check_def capture_board_def)
  have c: "choose_action capture_board 0 no_draws 0 = Inr ((0, 0, 0, 0), 0)"
    using j by (simp add: choose_action_def capture_board_def)
  have "rollout capture_board 0 no_draws 0 = rollout capture_board 1 no_draws 0"
    by (subst rollout.simps) (simp add: c, simp add: capture_board_def)
  then show ?thesis
    using c j by (simp add: capture_board_def player1_wins_def)
qed

text \<open>
  Claim C3, amended. At a rollout step in a state that is not ended, let \<open>w\<close> be a legal
  action whose resulting state is terminal and a win for the player to move, such that every
  legal action listed before \<open>w\<close> is skipped or put into the neutral pool by the loop (none
  of them wins, none claims its box for the mover, no lookup fails). Then the loop stops at
  \<open>w\<close> through the winning branch: \<open>w\<close> is the chosen action, no random draw is made,
  and the rollout continues from the state reached by \<open>w\<close>.
\<close>

theorem rollout_first_win:
  assumes "legal_actions B state = pre @ w # post"
    and "points_values B (next_state B state w) = Some score"
    and "score (current_player B state) = Some 1"
    and "\<forall>a\<in>set pre. judge B state a = Inr Loss \<or> judge B state a = Inr Handover
             \<or> judge B state a = Inr Neutral"
    and "\<not> is_ended B state"
  shows "scan_actions B state (legal_actions B state) [] =
           Inr (Some w, filter (\<lambda>a. judge B state a = Inr Neutral) pre)
       \<and> choose_action B state rnd k = Inr (w, k)
       \<and> rollout B state rnd k = rollout B (next_state B state w) rnd k"
proof -
  have w: "judge B state w = Inr Win"
    using assms(2,3) by (simp add: judge_Win_iff)
  have s: "scan_actions B state (legal_actions B state) [] =
           Inr (Some w, filter (\<lambda>a. judge B state a = Inr Neutral) pre)"
    using scan_actions_skip [OF assms(4), of "w # post" "[]"] w assms(1) by simp
  then have c: "choose_action B state rnd k = Inr (w, k)"
    by (simp add: choose_action_def)
  have "rollout B state rnd k = rollout B (next_state B state w) rnd k"
    using assms(5) c by (subst rollout.simps) simp
  with s c show ?thesis by simp
qed

theorem rollout_first_win_witness:
  "legal_actions neutral_board 0 = [(0, 0, 0, 0)] @ (0, 0, 1, 1) # []
   \<and> points_values neutral_board (next_state neutral_board 0 (0, 0, 1, 1)) = Some player1_wins
   \<and> player1_wins (current_player neutral_board 0) = Some 1
   \<and> judge neutral_board 0 (0, 0, 0, 0) = Inr Neutral
   \<and> \<not> is_ended neutral_board 0
   \<and> scan_actions neutral_board 0 (legal_actions neutral_board 0) [] =
        Inr (Some (0, 0, 1, 1), [(0, 0, 0, 0)])
   \<and> choose_action neutral_board 0 no_draws 0 = Inr ((0, 0, 1, 1), 0)"
proof -
  have l: "legal_actions neutral_board 0 = [(0, 0, 0, 0)] @ (0, 0, 1, 1) # []"
    by (simp add: neutral_board_def capture_board_def)
  have p: "points_values neutral_board (next_state neutral_board 0 (0, 0, 1, 1))
             = Some player1_wins"
    by (simp add: neutral_board_def capture_board_def)
  have s: "player1_wins (current_player neutral_board 0) = Some 1"
    by (simp add: neutral_board_def capture_board_def player1_wins_def)
  have j: "judge neutral_board 0 (0, 0, 0, 0) = Inr Neutral"
    by (simp add: judge_def capture_check_def neutral_board_def capture_board_def)
  then have a: "\<forall>a\<in>set [(0, 0, 0, 0)]. judge neutral_board 0 a = Inr Loss
      \<or> judge neutral_board 0 a = Inr Handover \<or> judge neutral_board 0 a = Inr Neutral"
    by simp
  have e: "\<not> is_ended neutral_board 0"
    by (simp add: neutral_board_def capture_board_def)
  from rollout_first_win [OF l p s a e, of no_draws 0] l p s j e show ?thesis
    by simp
qed

text \<open>
  Claim C9. At a rollout step in a state that is not ended, if the loop excludes every legal
  action as an immediate loss or as handing the box to the opponent, then no action is
  chosen, the neutral pool is empty, and \<^verbatim>\<open>choice\<close> raises \<^verbatim>\<open>IndexError\<close>: the rollout
  fails with that error; it applies no move at that step and returns no state.
\<close>

theorem rollout_empty_pool:
  assumes "\<not> is_ended B state"
    and "\<forall>a\<in>set (legal_actions B state).
           judge B state a = Inr Loss \<or> judge B state a = Inr Handover"
  shows "scan_actions B state (legal_actions B state) [] = Inr (None, [])
       \<and> choose_action B state rnd k = Inl IndexError
       \<and> rollout B state rnd k = Some (Inl IndexError)"
proof -
  have s: "scan_actions B state (legal_actions B state) [] = Inr (None, [])"
    using assms(2) by (rule scan_actions_all_excluded)
  then have c: "choose_action B state rnd k = Inl IndexError"
    by (simp add: choose_action_def choice_def)
  have "rollout B state rnd k = Some (Inl IndexError)"
    using assms(1) c by (subst rollout.simps) simp
  with s c show ?thesis by simp
qed

theorem rollout_empty_pool_witness:
  "\<not> is_ended capture_board 1
   \<and> legal_actions capture_board 1 = [(1, 1, 0, 0)]
   \<and> judge capture_board 1 (1, 1, 0, 0) = Inr Loss
   \<and> rollout capture_board 1 no_draws 0 = Some (Inl IndexError)"
proof -
  have e: "\<not> is_ended capture_board 1" by (simp add: capture_board_def)
  have j: "judge capture_board 1 (1, 1, 0, 0) = Inr Loss"
    by (simp add: judge_def capture_board_def player1_wins_def)
  have l: "legal_actions capture_board 1 = [(1, 1, 0, 0)]" by (simp add: capture_board_def)
  have a: "\<forall>a\<in>set (legal_actions capture_board 1).
           judge capture_board 1 a = Inr Loss \<or> judge capture_board 1 a = Inr Handover"
    using j l by simp
  from rollout_empty_pool [OF e a, of no_draws 0] e j l show ?thesis by simp
qed

subsection \<open>The tree invariant\<close>

lemma tree_invD:
  assumes "tree_inv h"
  shows "0 < length h" and "parent (h ! 0) = None"
    and "\<And>c. c < length h \<Longrightarrow> 0 < c \<Longrightarrow>
           \<exists>p<c. parent (h ! c) = Some p \<and> visits (h ! c) \<le> visits (h ! p)"
    and "\<And>n c. n < length h \<Longrightarrow> c \<in> set (child_refs (h ! n)) \<Longrightarrow>
           c < length h \<and> parent (h ! c) = Some n"
    and "distinct (child_refs (h ! 0))"
    and "sum_list (map (\<lambda>c. visits (h ! c)) (child_refs (h ! 0))) \<le> visits (h ! 0)"
  using assms unfolding tree_inv_def by blast+

lemma child_pos:
  assumes "tree_inv h" and "n < length h" and "c \<in> set (child_refs (h ! n))"
  shows "0 < c" and "n < c"
proof -
  from tree_invD(4) [OF assms] have c: "c < length h" and p: "parent (h ! c) = Some n" by simp_all
  show "0 < c"
  proof (rule ccontr)
    assume "\<not> 0 < c"
    then have "c = 0" by simp
    with p tree_invD(2) [OF assms(1)] show False by simp
  qed
  from tree_invD(3) [OF assms(1) c this] p show "n < c" by auto
qed

lemma root_store_inv: "tree_inv (root_store B s)"
  by (simp add: tree_inv_def root_store_def new_node_def child_refs_def)

lemma root_store_visited: "visited_except (root_store B s) 0"
  by (simp add: visited_except_def root_store_def)

lemma chain_exists:
  assumes "tree_inv h"
  shows "x < length h \<Longrightarrow> \<exists>ns. parent_chain h x ns \<and> last ns = 0"
proof (induction x rule: less_induct)
  case (less x)
  show ?case
  proof (cases "x = 0")
    case True
    with tree_invD(1,2) [OF assms] have "parent_chain h x [0] \<and> last [0] = (0::nat)" by simp
    then show ?thesis by blast
  next
    case False
    with tree_invD(3) [OF assms less.prems] obtain p
      where p: "p < x" "parent (h ! x) = Some p" by auto
    with less.prems have "p < length h" by simp
    from less.IH [OF p(1) this] obtain ns where ns: "parent_chain h p ns" "last ns = 0" by blast
    then have "ns \<noteq> []" by auto
    with ns p less.prems have "parent_chain h x (x # ns) \<and> last (x # ns) = 0" by simp
    then show ?thesis by blast
  qed
qed

lemma parent_chain_head: "parent_chain h n ns \<Longrightarrow> n \<in> set ns"
  by (cases ns) simp_all

lemma parent_chain_closed:
  "parent_chain h n ns \<Longrightarrow> c \<in> set ns \<Longrightarrow> parent (h ! c) = Some p \<Longrightarrow> p \<in> set ns"
proof (induction ns arbitrary: n)
  case Nil
  then show ?case by simp
next
  case (Cons x xs)
  show ?case
  proof (cases "c = x")
    case True
    with Cons.prems have "parent_chain h p xs" by simp
    then have "p \<in> set xs" by (rule parent_chain_head)
    then show ?thesis by simp
  next
    case False
    with Cons.prems have cx: "c \<in> set xs" by simp
    then have "xs \<noteq> []" by auto
    with Cons.prems obtain q where "parent_chain h q xs"
      by (auto split: option.splits)
    from Cons.IH [OF this cx Cons.prems(3)] show ?thesis by simp
  qed
qed

lemma parent_chain_root_child_unique:
  assumes "parent_chain h n ns" and "parent (h ! r) = None"
    and "c \<in> set ns" and "d \<in> set ns"
    and "parent (h ! c) = Some r" and "parent (h ! d) = Some r"
  shows "c = d"
proof -
  from parent_chain_suffix [OF assms(1,3)] obtain pc sc
    where c: "ns = pc @ sc" "parent_chain h c sc" by blast
  from parent_chain_suffix [OF assms(1,4)] obtain pd sd
    where d: "ns = pd @ sd" "parent_chain h d sd" by blast
  have r: "r < length h"
    using parent_chain_closed [OF assms(1,3,5)] parent_chain_in_store [OF assms(1)] by blast
  have "parent_chain h c [c, r]"
    using assms(2,5) r parent_chain_in_store [OF assms(1,3)] by simp
  with c(2) have sc: "sc = [c, r]" by (rule parent_chain_unique)
  have "parent_chain h d [d, r]"
    using assms(2,6) r parent_chain_in_store [OF assms(1,4)] by simp
  with d(2) have sd: "sd = [d, r]" by (rule parent_chain_unique)
  from c(1) d(1) sc sd have "pc @ [c, r] = pd @ [d, r]" by simp
  then show ?thesis by simp
qed

lemma sum_list_one_extra:
  fixes f :: "nat \<Rightarrow> nat"
  assumes "distinct cs" and "\<And>c d. c \<in> set cs \<Longrightarrow> d \<in> set cs \<Longrightarrow> c \<in> A \<Longrightarrow> d \<in> A \<Longrightarrow> c = d"
  shows "sum_list (map (\<lambda>c. if c \<in> A then f c + 1 else f c) cs) \<le> sum_list (map f cs) + 1"
  using assms
proof (induction cs)
  case Nil
  then show ?case by simp
next
  case (Cons c cs)
  show ?case
  proof (cases "c \<in> A")
    case True
    have "\<forall>d\<in>set cs. d \<notin> A"
    proof
      fix d assume d: "d \<in> set cs"
      show "d \<notin> A"
      proof
        assume "d \<in> A"
        with Cons.prems(2) [of c d] True d have "c = d" by simp
        with Cons.prems(1) d show False by simp
      qed
    qed
    then have "map (\<lambda>c. if c \<in> A then f c + 1 else f c) cs = map f cs"
      by (intro map_cong) auto
    then have "sum_list (map (\<lambda>c. if c \<in> A then f c + 1 else f c) cs) = sum_list (map f cs)"
      by (simp only:)
    with True show ?thesis by simp
  next
    case False
    have "sum_list (map (\<lambda>c. if c \<in> A then f c + 1 else f c) cs) \<le> sum_list (map f cs) + 1"
      using Cons.prems by (intro Cons.IH) auto
    with False show ?thesis by simp
  qed
qed

lemma update_set_subset: "set (map snd (AList.update k v al)) \<subseteq> insert v (set (map snd al))"
  by (induction al) auto

lemma update_distinct_refs:
  "distinct (map snd al) \<Longrightarrow> v \<notin> set (map snd al) \<Longrightarrow> distinct (map snd (AList.update k v al))"
proof (induction al)
  case Nil
  then show ?case by simp
next
  case (Cons p al)
  then show ?case
    using update_set_subset [of k v al] by (cases p) auto
qed

lemma update_sum_le:
  fixes f :: "nat \<Rightarrow> nat"
  shows "sum_list (map f (map snd (AList.update k v al))) \<le> sum_list (map f (map snd al)) + f v"
  by (induction al) auto


lemma expand_leaf_inv:
  assumes inv: "tree_inv h" and vis: "visited_except h 0" and leaf: "leaf < length h"
    and ex: "expand_leaf h B leaf s = Inr (h1, x, s1)"
  shows "tree_inv h1 \<and> x < length h1 \<and> visited_except h1 x \<and> visits (h1 ! 0) = visits (h ! 0)"
proof (cases "untried_actions (h ! leaf) = []")
  case True
  with ex leaf have "h1 = h" "x = leaf" by (simp_all add: expand_leaf_def)
  with inv vis leaf show ?thesis by (auto simp: visited_except_def)
next
  case False
  define a where "a = last (untried_actions (h ! leaf))"
  define nd2 where "nd2 = (h ! leaf)\<lparr>untried_actions := butlast (untried_actions (h ! leaf)),
     child_nodes := AList.update a (length h) (child_nodes (h ! leaf))\<rparr>"
  define new where "new = new_node (Some leaf) (Some a) (legal_actions B (next_state B s a))"
  from False ex leaf have h1: "h1 = h[leaf := nd2] @ [new]" and x: "x = length h"
    by (auto simp: expand_leaf_def Let_def a_def nd2_def new_def)
  have len: "length h1 = Suc (length h)" by (simp add: h1)
  have old: "parent (h1 ! m) = parent (h ! m) \<and> visits (h1 ! m) = visits (h ! m)
      \<and> child_refs (h1 ! m) =
          (if m = leaf then map snd (AList.update a (length h) (child_nodes (h ! leaf)))
           else child_refs (h ! m))" if "m < length h" for m
    using that leaf by (cases "m = leaf") (simp_all add: h1 nth_append nd2_def child_refs_def)
  have newn: "parent (h1 ! length h) = Some leaf" "visits (h1 ! length h) = 0"
    "child_refs (h1 ! length h) = []"
    by (simp_all add: h1 nth_append new_def new_node_def child_refs_def)
  have refs: "set (map snd (AList.update a (length h) (child_nodes (h ! leaf))))
      \<subseteq> insert (length h) (set (child_refs (h ! leaf)))"
    unfolding child_refs_def by (rule update_set_subset)
  have c1: "0 < length h1" by (simp add: len)
  have c2: "parent (h1 ! 0) = None"
    using old [of 0] tree_invD(1,2) [OF inv] by simp
  have c3: "\<exists>p<c. parent (h1 ! c) = Some p \<and> visits (h1 ! c) \<le> visits (h1 ! p)"
    if "c < length h1" "0 < c" for c
  proof (cases "c < length h")
    case True
    from tree_invD(3) [OF inv True that(2)] obtain p
      where p: "p < c" "parent (h ! c) = Some p" "visits (h ! c) \<le> visits (h ! p)" by blast
    with True have "p < length h" by simp
    with old [of p] old [OF True] p show ?thesis by auto
  next
    case False
    with that len have "c = length h" by simp
    with newn leaf show ?thesis by auto
  qed
  have c4: "c < length h1 \<and> parent (h1 ! c) = Some n"
    if "n < length h1" "c \<in> set (child_refs (h1 ! n))" for n c
  proof (cases "n < length h")
    case True
    show ?thesis
    proof (cases "c = length h")
      case c: True
      have "n = leaf"
      proof (rule ccontr)
        assume "n \<noteq> leaf"
        with old [OF True] that(2) have "c \<in> set (child_refs (h ! n))" by simp
        with tree_invD(4) [OF inv True] c show False by auto
      qed
      with c newn len show ?thesis by simp
    next
      case c: False
      have "c \<in> set (child_refs (h ! n))"
        using old [OF True] that(2) refs c by (auto split: if_splits)
      from tree_invD(4) [OF inv True this] old [of c] len show ?thesis by simp
    qed
  next
    case False
    with that len have "n = length h" by simp
    with that(2) newn show ?thesis by simp
  qed
  have below: "c < length h" if "c \<in> set (child_refs (h ! 0))" for c
    using tree_invD(4) [OF inv tree_invD(1) [OF inv] that] by simp
  have c5: "distinct (child_refs (h1 ! 0))"
  proof (cases "leaf = 0")
    case True
    have "length h \<notin> set (map snd (child_nodes (h ! 0)))"
      using below unfolding child_refs_def by auto
    with tree_invD(5) [OF inv]
    have "distinct (map snd (AList.update a (length h) (child_nodes (h ! 0))))"
      unfolding child_refs_def by (intro update_distinct_refs)
    with old [of 0] tree_invD(1) [OF inv] True show ?thesis by simp
  next
    case False
    with old [of 0] tree_invD(1,5) [OF inv] show ?thesis by simp
  qed
  define g where "g c = (if c < length h then visits (h ! c) else 0)" for c
  have gv: "visits (h1 ! c) = g c" if "c \<le> length h" for c
    using that old [of c] newn by (cases "c < length h") (simp_all add: g_def)
  have c6: "sum_list (map (\<lambda>c. visits (h1 ! c)) (child_refs (h1 ! 0))) \<le> visits (h1 ! 0)"
  proof -
    have in1: "c \<le> length h" if "c \<in> set (child_refs (h1 ! 0))" for c
      using c4 [OF c1 that] len by simp
    have "sum_list (map (\<lambda>c. visits (h1 ! c)) (child_refs (h1 ! 0)))
        = sum_list (map g (child_refs (h1 ! 0)))"
      using in1 gv by (intro arg_cong [where f = sum_list] map_cong) auto
    also have "\<dots> \<le> sum_list (map g (child_refs (h ! 0)))"
    proof (cases "leaf = 0")
      case True
      have "sum_list (map g (map snd (AList.update a (length h) (child_nodes (h ! 0)))))
          \<le> sum_list (map g (map snd (child_nodes (h ! 0)))) + g (length h)"
        by (rule update_sum_le)
      with old [of 0] tree_invD(1) [OF inv] True show ?thesis
        by (simp add: g_def child_refs_def)
    next
      case False
      with old [of 0] tree_invD(1) [OF inv] show ?thesis by simp
    qed
    also have "\<dots> = sum_list (map (\<lambda>c. visits (h ! c)) (child_refs (h ! 0)))"
      using below by (intro arg_cong [where f = sum_list] map_cong) (auto simp: g_def)
    also have "\<dots> \<le> visits (h ! 0)" by (rule tree_invD(6) [OF inv])
    also have "\<dots> = visits (h1 ! 0)" using old [of 0] tree_invD(1) [OF inv] by simp
    finally show ?thesis .
  qed
  have inv1: "tree_inv h1"
    unfolding tree_inv_def using c1 c2 c3 c4 c5 c6 by blast
  have vis1: "visited_except h1 x"
    unfolding visited_except_def
  proof (intro allI impI)
    fix c assume c: "c < length h1" "0 < c" "c \<noteq> x"
    with len x have "c < length h" by simp
    with vis c(2) old [of c] show "1 \<le> visits (h1 ! c)" by (simp add: visited_except_def)
  qed
  from inv1 vis1 x len old [of 0] tree_invD(1) [OF inv] show ?thesis by simp
qed


lemma backpropagate_inv:
  assumes inv: "tree_inv h" and vis: "visited_except h x" and x: "x < length h"
  shows "\<exists>h2. backpropagate h (Some x) v = Some (Inr h2) \<and> tree_inv h2
     \<and> visited_except h2 0 \<and> visits (h2 ! 0) = visits (h ! 0) + 1"
proof -
  from chain_exists [OF inv x] obtain ns where ch: "parent_chain h x ns" and l: "last ns = 0"
    by blast
  define h2 where "h2 = bump_all v ns h"
  have bp: "backpropagate h (Some x) v = Some (Inr h2)"
    unfolding h2_def using ch by (rule backpropagate_fold)
  have d: "distinct ns" using ch by (rule parent_chain_distinct)
  have r: "\<forall>m\<in>set ns. m < length h" using ch by (blast intro: parent_chain_in_store)
  have "ns \<noteq> []" using ch by auto
  with l have root_in: "0 \<in> set ns" using last_in_set by fastforce
  have x_in: "x \<in> set ns" using ch by (rule parent_chain_head)
  have len: "length h2 = length h" by (simp add: h2_def)
  have nth: "h2 ! m = (if m \<in> set ns then bump v (h ! m) else h ! m)" if "m < length h" for m
    unfolding h2_def using d r that by (rule nth_bump_all)
  have same: "parent (h2 ! m) = parent (h ! m) \<and> child_refs (h2 ! m) = child_refs (h ! m)
      \<and> visits (h2 ! m) = (if m \<in> set ns then visits (h ! m) + 1 else visits (h ! m))"
    if "m < length h" for m
    using nth [OF that] by (simp add: bump_def child_refs_def)
  have c1: "0 < length h2" using tree_invD(1) [OF inv] len by simp
  have c2: "parent (h2 ! 0) = None" using same [of 0] tree_invD(1,2) [OF inv] by simp
  have c3: "\<exists>p<c. parent (h2 ! c) = Some p \<and> visits (h2 ! c) \<le> visits (h2 ! p)"
    if "c < length h2" "0 < c" for c
  proof -
    from that len have c: "c < length h" by simp
    from tree_invD(3) [OF inv c that(2)] obtain p
      where p: "p < c" "parent (h ! c) = Some p" "visits (h ! c) \<le> visits (h ! p)" by blast
    with c have pl: "p < length h" by simp
    have "c \<in> set ns \<Longrightarrow> p \<in> set ns"
      using parent_chain_closed [OF ch _ p(2)] by simp
    with same [OF c] same [OF pl] p show ?thesis by auto
  qed
  have c4: "c < length h2 \<and> parent (h2 ! c) = Some n"
    if "n < length h2" "c \<in> set (child_refs (h2 ! n))" for n c
  proof -
    from that len have n: "n < length h" by simp
    with that(2) same [OF n] have "c \<in> set (child_refs (h ! n))" by simp
    from tree_invD(4) [OF inv n this] same [of c] len show ?thesis by simp
  qed
  have c5: "distinct (child_refs (h2 ! 0))"
    using same [of 0] tree_invD(1,5) [OF inv] by simp
  have kids: "c < length h \<and> parent (h ! c) = Some 0" if "c \<in> set (child_refs (h ! 0))" for c
    using tree_invD(4) [OF inv tree_invD(1) [OF inv] that] .
  have c6: "sum_list (map (\<lambda>c. visits (h2 ! c)) (child_refs (h2 ! 0))) \<le> visits (h2 ! 0)"
  proof -
    have "sum_list (map (\<lambda>c. visits (h2 ! c)) (child_refs (h2 ! 0)))
        = sum_list (map (\<lambda>c. if c \<in> set ns then visits (h ! c) + 1 else visits (h ! c))
            (child_refs (h ! 0)))"
      using same [of 0] tree_invD(1) [OF inv] kids same
      by (intro arg_cong [where f = sum_list] map_cong) auto
    also have "\<dots> \<le> sum_list (map (\<lambda>c. visits (h ! c)) (child_refs (h ! 0))) + 1"
    proof (rule sum_list_one_extra)
      show "distinct (child_refs (h ! 0))" by (rule tree_invD(5) [OF inv])
    next
      fix c e assume "c \<in> set (child_refs (h ! 0))" "e \<in> set (child_refs (h ! 0))"
        "c \<in> set ns" "e \<in> set ns"
      with kids show "c = e"
        using parent_chain_root_child_unique [OF ch tree_invD(2) [OF inv]] by blast
    qed
    also have "\<dots> \<le> visits (h ! 0) + 1" using tree_invD(6) [OF inv] by simp
    also have "\<dots> = visits (h2 ! 0)" using same [of 0] tree_invD(1) [OF inv] root_in by simp
    finally show ?thesis .
  qed
  have inv2: "tree_inv h2"
    unfolding tree_inv_def using c1 c2 c3 c4 c5 c6 by blast
  have vis2: "visited_except h2 0"
    unfolding visited_except_def
  proof (intro allI impI)
    fix c assume c: "c < length h2" "0 < c" "c \<noteq> 0"
    with len have cl: "c < length h" by simp
    show "1 \<le> visits (h2 ! c)"
    proof (cases "c = x")
      case True
      with same [OF cl] x_in show ?thesis by simp
    next
      case False
      with vis cl c(2) have "1 \<le> visits (h ! c)" by (simp add: visited_except_def)
      with same [OF cl] show ?thesis by simp
    qed
  qed
  from bp inv2 vis2 same [of 0] tree_invD(1) [OF inv] root_in show ?thesis by simp
qed

lemma child_ucb_defined:
  assumes inv: "tree_inv h" and vis: "visited_except h 0"
    and n: "n < length h" and c: "c \<in> set (child_refs (h ! n))"
  shows "parent (h ! c) = Some n \<and> c < length h \<and> 0 < visits (h ! c) \<and> 0 < visits (h ! n)
     \<and> ucb h c flag =
         Inr ((if flag then wins (h ! c) / real (visits (h ! c))
               else 1 - wins (h ! c) / real (visits (h ! c)))
              + 2 * sqrt (ln (real (visits (h ! n))) / real (visits (h ! c))))"
proof -
  from tree_invD(4) [OF inv n c] have cl: "c < length h" and p: "parent (h ! c) = Some n"
    by simp_all
  have pos: "0 < c" using child_pos(1) [OF inv n c] .
  with vis cl have vc: "0 < visits (h ! c)" by (auto simp: visited_except_def)
  from tree_invD(3) [OF inv cl pos] p have "visits (h ! c) \<le> visits (h ! n)" by auto
  with vc have vn: "0 < visits (h ! n)" by simp
  from ucb_value [OF cl p n vc vn] p cl vc vn show ?thesis by simp
qed

lemma scan_children_cases:
  fixes bot_identity :: int
  assumes "\<forall>c\<in>set (map snd cs). c < length h \<and> 0 < visits (h ! c)
             \<and> (\<exists>u. ucb h c (bot_identity = current_player B s) = Inr u)"
    and "untried_actions cur = []"
  shows "scan_children h B cur s bot_identity cs best bn ba = Inr (Best best bn ba)
     \<or> (\<exists>u a c. (a, c) \<in> set cs \<and> ucb h c (bot_identity = current_player B s) = Inr u \<and> best < u
           \<and> scan_children h B cur s bot_identity cs best bn ba = Inr (Best u (Some c) (Some a)))"
  using assms(1)
proof (induction cs arbitrary: best bn ba)
  case Nil
  then show ?case by simp
next
  case (Cons ac cs)
  obtain a c where ac: "ac = (a, c)" by (cases ac)
  with Cons.prems obtain u where c: "c < length h" "0 < visits (h ! c)"
    and u: "ucb h c (bot_identity = current_player B s) = Inr u" by auto
  have rest: "\<forall>c\<in>set (map snd cs). c < length h \<and> 0 < visits (h ! c)
             \<and> (\<exists>u. ucb h c (bot_identity = current_player B s) = Inr u)"
    using Cons.prems by simp
  show ?case
  proof (cases "best < u")
    case True
    then have step: "scan_children h B cur s bot_identity (ac # cs) best bn ba =
        scan_children h B cur s bot_identity cs u (Some c) (Some a)"
      using ac c u assms(2) by simp
    from Cons.IH [OF rest, of u "Some c" "Some a"] show ?thesis
    proof
      assume "scan_children h B cur s bot_identity cs u (Some c) (Some a) = Inr (Best u (Some c) (Some a))"
      with step have "scan_children h B cur s bot_identity (ac # cs) best bn ba
          = Inr (Best u (Some c) (Some a))"
        by (simp only:)
      with True u ac have "(a, c) \<in> set (ac # cs) \<and>
        ucb h c (bot_identity = current_player B s) = Inr u \<and> best < u \<and>
        scan_children h B cur s bot_identity (ac # cs) best bn ba = Inr (Best u (Some c) (Some a))"
        by simp
      then show ?thesis by blast
    next
      assume "\<exists>u' a' c'. (a', c') \<in> set cs \<and> ucb h c' (bot_identity = current_player B s) = Inr u'
           \<and> u < u'
           \<and> scan_children h B cur s bot_identity cs u (Some c) (Some a) = Inr (Best u' (Some c') (Some a'))"
      then obtain u' a' c' where "(a', c') \<in> set cs"
        "ucb h c' (bot_identity = current_player B s) = Inr u'" "u < u'"
        "scan_children h B cur s bot_identity cs u (Some c) (Some a) = Inr (Best u' (Some c') (Some a'))"
        by blast
      with step True have "(a', c') \<in> set (ac # cs) \<and>
        ucb h c' (bot_identity = current_player B s) = Inr u' \<and> best < u' \<and>
        scan_children h B cur s bot_identity (ac # cs) best bn ba = Inr (Best u' (Some c') (Some a'))"
        by (simp only: list.set insert_iff) simp
      then show ?thesis by blast
    qed
  next
    case False
    then have step: "scan_children h B cur s bot_identity (ac # cs) best bn ba =
        scan_children h B cur s bot_identity cs best bn ba"
      using ac c u assms(2) by simp
    from Cons.IH [OF rest, of best bn ba] show ?thesis
    proof
      assume "scan_children h B cur s bot_identity cs best bn ba = Inr (Best best bn ba)"
      with step have "scan_children h B cur s bot_identity (ac # cs) best bn ba = Inr (Best best bn ba)"
        by (simp only:)
      then show ?thesis by blast
    next
      assume "\<exists>u' a' c'. (a', c') \<in> set cs \<and> ucb h c' (bot_identity = current_player B s) = Inr u'
           \<and> best < u'
           \<and> scan_children h B cur s bot_identity cs best bn ba = Inr (Best u' (Some c') (Some a'))"
      then obtain u' a' c' where "(a', c') \<in> set cs"
        "ucb h c' (bot_identity = current_player B s) = Inr u'" "best < u'"
        "scan_children h B cur s bot_identity cs best bn ba = Inr (Best u' (Some c') (Some a'))"
        by blast
      with step have "(a', c') \<in> set (ac # cs) \<and>
        ucb h c' (bot_identity = current_player B s) = Inr u' \<and> best < u' \<and>
        scan_children h B cur s bot_identity (ac # cs) best bn ba = Inr (Best u' (Some c') (Some a'))"
        by (simp only: list.set insert_iff) simp
      then show ?thesis by blast
    qed
  qed
qed


lemma children_scan_ready:
  fixes bot_identity :: int
  assumes inv: "tree_inv h" and vis: "visited_except h 0" and n: "n < length h"
  shows "\<forall>c\<in>set (map snd (child_nodes (h ! n))). c < length h \<and> 0 < visits (h ! c)
             \<and> (\<exists>u. ucb h c (bot_identity = current_player B s) = Inr u)"
proof
  fix c assume "c \<in> set (map snd (child_nodes (h ! n)))"
  then have "c \<in> set (child_refs (h ! n))" by (simp add: child_refs_def)
  from child_ucb_defined [OF inv vis n this, of "bot_identity = current_player B s"]
  show "c < length h \<and> 0 < visits (h ! c) \<and> (\<exists>u. ucb h c (bot_identity = current_player B s) = Inr u)"
    by simp
qed

lemma traverse_nodes_total:
  assumes inv: "tree_inv h" and vis: "visited_except h 0"
  shows "node < length h \<Longrightarrow>
    \<exists>r. traverse_nodes h B node s bot_identity = Some r
       \<and> (r = Inl AttributeError \<or> (\<exists>leaf s'. r = Inr (leaf, s') \<and> leaf < length h))"
proof (induction "length h - node" arbitrary: node s rule: less_induct)
  case less
  note node = less.prems
  show ?case
  proof (cases "length (untried_actions (h ! node)) < 1 \<and> \<not> is_ended B s")
    case False
    then have "traverse_nodes h B node s bot_identity = Some (Inr (node, s))"
      using node by (subst traverse_nodes.simps) auto
    with node show ?thesis by simp
  next
    case True
    then have un: "untried_actions (h ! node) = []" by simp
    let ?scan = "scan_children h B (h ! node) s bot_identity (child_nodes (h ! node)) (- 999999) None None"
    have unf: "traverse_nodes h B node s bot_identity =
      (case ?scan of
         Inl e \<Rightarrow> Some (Inl e)
       | Inr (Returned c s') \<Rightarrow> Some (Inr (c, s'))
       | Inr (Best bestUCB None bestAction) \<Rightarrow> Some (Inl AttributeError)
       | Inr (Best bestUCB (Some bestNode) None) \<Rightarrow> Some (Inl AttributeError)
       | Inr (Best bestUCB (Some bestNode) (Some bestAction)) \<Rightarrow>
           traverse_nodes h B bestNode (next_state B s bestAction) bot_identity)"
      using node True by (subst traverse_nodes.simps) simp
    from scan_children_cases [where best = "- 999999" and bn = None and ba = None,
        OF children_scan_ready [OF inv vis node] un]
    show ?thesis
    proof
      assume "?scan = Inr (Best (- 999999) None None)"
      with unf show ?thesis by simp
    next
      assume "\<exists>u a c. (a, c) \<in> set (child_nodes (h ! node))
           \<and> ucb h c (bot_identity = current_player B s) = Inr u \<and> - 999999 < u
           \<and> ?scan = Inr (Best u (Some c) (Some a))"
      then obtain u a c where ac: "(a, c) \<in> set (child_nodes (h ! node))"
        and sc: "?scan = Inr (Best u (Some c) (Some a))" by blast
      from ac have cr: "c \<in> set (child_refs (h ! node))"
        by (force simp: child_refs_def)
      from tree_invD(4) [OF inv node cr] have cl: "c < length h" by simp
      from child_pos(2) [OF inv node cr] have "node < c" .
      with cl have "length h - c < length h - node" by simp
      from less.hyps [OF this cl, of "next_state B s a"] unf sc show ?thesis by simp
    qed
  qed
qed

lemma think_iteration_inv:
  assumes inv: "tree_inv h" and vis: "visited_except h 0"
    and it: "think_iteration B s bot_identity rnd (h, k) = Some (Inr (h', k'))"
  shows "tree_inv h' \<and> visited_except h' 0 \<and> visits (h' ! 0) = visits (h ! 0) + 1"
proof -
  from traverse_nodes_total [where B = B and s = s and bot_identity = bot_identity,
      OF inv vis tree_invD(1) [OF inv]]
  obtain r where tr: "traverse_nodes h B 0 s bot_identity = Some r"
    and r: "r = Inl AttributeError \<or> (\<exists>leaf s'. r = Inr (leaf, s') \<and> leaf < length h)"
    by blast
  from r it tr obtain leaf s' where r': "r = Inr (leaf, s')" and leaf: "leaf < length h"
    by (auto simp: think_iteration_def)
  from it tr r' obtain h1 x s1 where ex: "expand_leaf h B leaf s' = Inr (h1, x, s1)"
    by (auto simp: think_iteration_def split: sum.splits)
  from expand_leaf_inv [OF inv vis leaf ex]
  have inv1: "tree_inv h1" and x: "x < length h1" and vis1: "visited_except h1 x"
    and v1: "visits (h1 ! 0) = visits (h ! 0)" by simp_all
  from it tr r' ex obtain won where bp: "backpropagate h1 (Some x) won = Some (Inr h')"
    by (auto simp: think_iteration_def split: sum.splits option.splits)
  from backpropagate_inv [OF inv1 vis1 x, of won] bp v1 show ?thesis by simp
qed

lemma think_loop_inv:
  "tree_inv h \<Longrightarrow> visited_except h 0 \<Longrightarrow>
   think_loop B s bot_identity rnd n (h, k) = Some (Inr (h', k')) \<Longrightarrow>
   tree_inv h' \<and> visited_except h' 0 \<and> visits (h' ! 0) = visits (h ! 0) + n"
proof (induction n arbitrary: h k)
  case 0
  then show ?case by simp
next
  case (Suc n)
  from Suc.prems(3) obtain h1 k1
    where it: "think_iteration B s bot_identity rnd (h, k) = Some (Inr (h1, k1))"
      and lp: "think_loop B s bot_identity rnd n (h1, k1) = Some (Inr (h', k'))"
    by (auto split: option.splits sum.splits)
  from think_iteration_inv [OF Suc.prems(1,2) it]
  have 1: "tree_inv h1" "visited_except h1 0" "visits (h1 ! 0) = visits (h ! 0) + 1" by simp_all
  from Suc.IH [OF 1(1,2) lp] 1(3) show ?case by simp
qed

lemma think_loop_from_root:
  assumes "think_loop B s bot_identity rnd n (root_store B s, 0) = Some (Inr (h, k))"
  shows "tree_inv h \<and> visited_except h 0 \<and> visits (h ! 0) = n"
  using think_loop_inv [OF root_store_inv root_store_visited assms]
  by (simp add: root_store_def new_node_def)


subsection \<open>A complete run\<close>

lemma one_move_traverse_child:
  "traverse_nodes (one_move_store m) one_move_board 1 1 1 = Some (Inr (1, 1))"
  by (subst traverse_nodes.simps) (simp add: one_move_store_def one_move_board_def)

lemma one_move_ucb:
  assumes "0 < m"
  shows "\<exists>u. ucb (one_move_store m) 1 True = Inr u \<and> - 999999 < u"
proof -
  have "0 \<le> sqrt (ln (real m) / real m)"
    using assms by simp
  moreover have "real m / real m = 1"
    using assms by simp
  ultimately have "- 999999 < real m / real m + 2 * sqrt (ln (real m) / real m)"
    by linarith
  moreover have "ucb (one_move_store m) 1 True =
      Inr (real m / real m + 2 * sqrt (ln (real m) / real m))"
    using ucb_value [of 1 "one_move_store m" 0 True] assms
    by (simp add: one_move_store_def)
  ultimately show ?thesis by blast
qed

lemma one_move_traverse_root:
  assumes "0 < m"
  shows "traverse_nodes (one_move_store m) one_move_board 0 0 1 = Some (Inr (1, 1))"
proof -
  from one_move_ucb [OF assms] obtain u
    where u: "ucb (one_move_store m) 1 True = Inr u" "- 999999 < u" by blast
  have "scan_children (one_move_store m) one_move_board (one_move_store m ! 0) 0 1
          (child_nodes (one_move_store m ! 0)) (- 999999) None None
        = Inr (Best u (Some 1) (Some (0, 0, 0, 0)))"
    using u assms by (simp add: one_move_store_def one_move_board_def)
  then have "traverse_nodes (one_move_store m) one_move_board 0 0 1 =
      traverse_nodes (one_move_store m) one_move_board 1
        (next_state one_move_board 0 (0, 0, 0, 0)) 1"
    by (subst traverse_nodes.simps) (simp add: one_move_store_def one_move_board_def)
  then show ?thesis
    using one_move_traverse_child [of m] by (simp add: one_move_board_def)
qed

lemma one_move_rollout: "rollout one_move_board 1 rnd k = Some (Inr (1, k))"
  by (subst rollout.simps) (simp add: one_move_board_def)

lemma one_move_backpropagate:
  assumes "h = [r, c]" and "parent r = None" and "parent c = Some 0"
  shows "backpropagate h (Some 1) v = Some (Inr [bump v r, bump v c])"
proof -
  have "parent_chain h 1 [1, 0]" using assms by simp
  from backpropagate_fold [OF this, of v] assms(1) show ?thesis
    by (simp add: bump_all_def)
qed

lemma one_move_first_iteration:
  "think_iteration one_move_board 0 1 rnd (root_store one_move_board 0, k)
     = Some (Inr (one_move_store 1, k))"
proof -
  have t: "traverse_nodes (root_store one_move_board 0) one_move_board 0 0 1 = Some (Inr (0, 0))"
    by (subst traverse_nodes.simps) (simp add: root_store_def new_node_def one_move_board_def)
  let ?r = "\<lparr>parent = None, parent_action = None, child_nodes = [((0, 0, 0, 0), 1)],
       untried_actions = [], wins = 0, visits = 0\<rparr>"
  let ?c = "\<lparr>parent = Some 0, parent_action = Some (0, 0, 0, 0), child_nodes = [],
       untried_actions = [], wins = 0, visits = 0\<rparr>"
  have e: "expand_leaf (root_store one_move_board 0) one_move_board 0 0 = Inr ([?r, ?c], 1, 1)"
    by (simp add: expand_leaf_def Let_def root_store_def new_node_def one_move_board_def)
  have b: "backpropagate [?r, ?c] (Some 1) 1 = Some (Inr (one_move_store 1))"
    using one_move_backpropagate [of "[?r, ?c]" ?r ?c 1]
    by (simp add: bump_def one_move_store_def)
  show ?thesis
    using t e b one_move_rollout [of rnd k]
    by (simp add: think_iteration_def) (simp add: one_move_board_def player1_wins_def)
qed

lemma one_move_later_iteration:
  assumes "0 < m"
  shows "think_iteration one_move_board 0 1 rnd (one_move_store m, k)
     = Some (Inr (one_move_store (Suc m), k))"
proof -
  have e: "expand_leaf (one_move_store m) one_move_board 1 1 = Inr (one_move_store m, 1, 1)"
    by (simp add: expand_leaf_def one_move_store_def)
  have b: "backpropagate (one_move_store m) (Some 1) 1 = Some (Inr (one_move_store (Suc m)))"
    using one_move_backpropagate [of "one_move_store m" "one_move_store m ! 0"
        "one_move_store m ! 1" 1]
    by (simp add: bump_def one_move_store_def add.commute)
  show ?thesis
    using one_move_traverse_root [OF assms] e b one_move_rollout [of rnd k]
    by (simp add: think_iteration_def) (simp add: one_move_board_def player1_wins_def)
qed

lemma one_move_loop:
  "0 < m \<Longrightarrow> think_loop one_move_board 0 1 rnd n (one_move_store m, k)
     = Some (Inr (one_move_store (m + n), k))"
proof (induction n arbitrary: m)
  case 0
  then show ?case by simp
next
  case (Suc n)
  from Suc.IH [of "Suc m"] one_move_later_iteration [OF Suc.prems, of rnd k]
  show ?case by simp
qed

lemma one_move_run_Suc:
  "think_loop one_move_board 0 1 rnd (Suc n) (root_store one_move_board 0, k)
     = Some (Inr (one_move_store (Suc n), k))"
  using one_move_first_iteration [of rnd k] one_move_loop [of 1 rnd n k] by simp

lemma one_move_run:
  assumes "0 < n"
  shows "think_loop one_move_board 0 1 rnd n (root_store one_move_board 0, k)
     = Some (Inr (one_move_store n, k))"
proof -
  from assms obtain n' where "n = Suc n'" by (cases n) simp_all
  then show ?thesis by (simp only: one_move_run_Suc)
qed

subsection \<open>The search driver\<close>

text \<open>
  Claim C6. When the loop of \<^verbatim>\<open>think\<close> has completed its \<^verbatim>\<open>num_nodes\<close> iterations
  (so every rollout has returned a terminal state without error), the root's \<open>visits\<close> is
  100 and the \<open>visits\<close> of the root's children sum to at most 100. The statement holds for
  every input state; a non-terminal one is the case of the claim.
\<close>

theorem think_visit_budget:
  assumes "think_loop B s (current_player B s) rnd num_nodes (root_store B s, 0) = Some (Inr (h, k))"
  shows "visits (h ! 0) = 100
     \<and> sum_list (map (\<lambda>(a, c). visits (h ! c)) (child_nodes (h ! 0))) \<le> 100"
proof -
  from think_loop_from_root [OF assms]
  have inv: "tree_inv h" and v: "visits (h ! 0) = num_nodes" by simp_all
  have "map (\<lambda>(a, c). visits (h ! c)) (child_nodes (h ! 0))
      = map (\<lambda>c. visits (h ! c)) (child_refs (h ! 0))"
    by (simp add: child_refs_def case_prod_beta comp_def)
  with tree_invD(6) [OF inv] v show ?thesis
    by (simp add: num_nodes_def)
qed

theorem think_visit_budget_witness:
  "think_loop one_move_board 0 (current_player one_move_board 0) no_draws num_nodes
      (root_store one_move_board 0, 0) = Some (Inr (one_move_store 100, 0))
   \<and> \<not> is_ended one_move_board 0
   \<and> visits (one_move_store 100 ! 0) = 100
   \<and> sum_list (map (\<lambda>(a, c). visits (one_move_store 100 ! c))
         (child_nodes (one_move_store 100 ! 0))) \<le> 100"
proof -
  have n: "num_nodes = 100" by (simp add: num_nodes_def)
  have p: "current_player one_move_board 0 = 1" by (simp add: one_move_board_def)
  have run: "think_loop one_move_board 0 (current_player one_move_board 0) no_draws num_nodes
      (root_store one_move_board 0, 0) = Some (Inr (one_move_store 100, 0))"
    unfolding n p by (rule one_move_run) simp
  have e: "\<not> is_ended one_move_board 0" by (simp add: one_move_board_def)
  from think_visit_budget [OF run] run e show ?thesis by simp
qed

text \<open>
  Claim C10. At the start of every iteration of the loop of \<^verbatim>\<open>think\<close> and after the
  last one, that is, in the store reached after any number \<open>n\<close> of completed iterations,
  every node stored in a children dictionary has \<open>visits \<ge> 1\<close>. Hence the loop of
  \<^verbatim>\<open>traverse_nodes\<close> over the children of a node without untried actions never leaves
  through the early return for a child with zero visits.
\<close>

theorem children_always_visited:
  assumes "think_loop B s bot_identity rnd n (root_store B s, 0) = Some (Inr (h, k))"
  shows "(\<forall>p<length h. \<forall>(a, c)\<in>set (child_nodes (h ! p)). c < length h \<and> 1 \<le> visits (h ! c))
     \<and> (\<forall>p<length h. untried_actions (h ! p) = [] \<longrightarrow>
          (\<forall>st best bn ba c st'.
             scan_children h B (h ! p) st bot_identity (child_nodes (h ! p)) best bn ba
               \<noteq> Inr (Returned c st')))"
proof -
  from think_loop_from_root [OF assms]
  have inv: "tree_inv h" and vis: "visited_except h 0" by simp_all
  have 1: "c < length h \<and> 1 \<le> visits (h ! c)"
    if "p < length h" "(a, c) \<in> set (child_nodes (h ! p))" for p a c
  proof -
    from that(2) have "c \<in> set (child_refs (h ! p))" by (force simp: child_refs_def)
    from child_ucb_defined [OF inv vis that(1) this, of True] show ?thesis by simp
  qed
  have 2: "scan_children h B (h ! p) st bot_identity (child_nodes (h ! p)) best bn ba
               \<noteq> Inr (Returned c st')"
    if "p < length h" "untried_actions (h ! p) = []" for p st best bn ba c st'
    using scan_children_cases [where best = best and bn = bn and ba = ba,
        OF children_scan_ready [OF inv vis that(1)] that(2), of B st bot_identity]
    by auto
  from 1 2 show ?thesis by blast
qed

theorem children_always_visited_witness:
  "think_loop one_move_board 0 1 no_draws 3 (root_store one_move_board 0, 0)
     = Some (Inr (one_move_store 3, 0))
   \<and> child_nodes (one_move_store 3 ! 0) = [((0, 0, 0, 0), 1)]
   \<and> visits (one_move_store 3 ! 1) = 3
   \<and> untried_actions (one_move_store 3 ! 0) = []
   \<and> scan_children (one_move_store 3) one_move_board (one_move_store 3 ! 0) 0 1
        (child_nodes (one_move_store 3 ! 0)) (- 999999) None None \<noteq> Inr (Returned 1 1)"
proof -
  have run: "think_loop one_move_board 0 1 no_draws 3 (root_store one_move_board 0, 0)
     = Some (Inr (one_move_store 3, 0))"
    by (rule one_move_run) simp
  from children_always_visited [OF run]
  have all: "\<forall>p<length (one_move_store 3). untried_actions (one_move_store 3 ! p) = [] \<longrightarrow>
          (\<forall>st best bn ba c st'.
             scan_children (one_move_store 3) one_move_board (one_move_store 3 ! p) st 1
               (child_nodes (one_move_store 3 ! p)) best bn ba \<noteq> Inr (Returned c st'))"
    by blast
  have "0 < length (one_move_store 3)" and u: "untried_actions (one_move_store 3 ! 0) = []"
    by (simp_all add: one_move_store_def)
  with all have "scan_children (one_move_store 3) one_move_board (one_move_store 3 ! 0) 0 1
        (child_nodes (one_move_store 3 ! 0)) (- 999999) None None \<noteq> Inr (Returned 1 1)"
    by blast
  with run u show ?thesis
    by (simp add: one_move_store_def)
qed

text \<open>
  Claim C7. In the store at the start of any iteration of \<^verbatim>\<open>think\<close> (which
  \<^verbatim>\<open>traverse_nodes\<close> reads and does not change), every child in a children dictionary
  has non-zero \<open>visits\<close>, its parent is the owner of the dictionary and has non-zero
  \<open>visits\<close>, and \<^verbatim>\<open>ucb\<close> of that child returns a value: it neither divides by zero nor
  takes the logarithm of zero. The descent of that iteration returns, and not with a
  \<^verbatim>\<open>ZeroDivisionError\<close> or a \<^verbatim>\<open>ValueError\<close>.
\<close>

theorem ucb_never_fails_in_think:
  assumes "think_loop B s bot_identity rnd n (root_store B s, 0) = Some (Inr (h, k))"
  shows "(\<forall>p<length h. \<forall>(a, c)\<in>set (child_nodes (h ! p)).
            parent (h ! c) = Some p \<and> visits (h ! c) \<noteq> 0 \<and> visits (h ! p) \<noteq> 0
            \<and> (\<exists>u. ucb h c (bot_identity = current_player B st) = Inr u))
     \<and> (\<exists>r. traverse_nodes h B 0 s bot_identity = Some r
            \<and> r \<noteq> Inl ZeroDivisionError \<and> r \<noteq> Inl ValueError)"
proof -
  from think_loop_from_root [OF assms]
  have inv: "tree_inv h" and vis: "visited_except h 0" by simp_all
  have 1: "parent (h ! c) = Some p \<and> visits (h ! c) \<noteq> 0 \<and> visits (h ! p) \<noteq> 0
            \<and> (\<exists>u. ucb h c (bot_identity = current_player B st) = Inr u)"
    if "p < length h" "(a, c) \<in> set (child_nodes (h ! p))" for p a c
  proof -
    from that(2) have "c \<in> set (child_refs (h ! p))" by (force simp: child_refs_def)
    from child_ucb_defined [OF inv vis that(1) this, of "bot_identity = current_player B st"]
    show ?thesis by simp
  qed
  from traverse_nodes_total [where B = B and s = s and bot_identity = bot_identity,
      OF inv vis tree_invD(1) [OF inv]]
  have 2: "\<exists>r. traverse_nodes h B 0 s bot_identity = Some r
            \<and> r \<noteq> Inl ZeroDivisionError \<and> r \<noteq> Inl ValueError"
    by auto
  from 1 2 show ?thesis by blast
qed

theorem ucb_never_fails_in_think_witness:
  "think_loop one_move_board 0 1 no_draws 2 (root_store one_move_board 0, 0)
     = Some (Inr (one_move_store 2, 0))
   \<and> child_nodes (one_move_store 2 ! 0) = [((0, 0, 0, 0), 1)]
   \<and> visits (one_move_store 2 ! 1) = 2 \<and> visits (one_move_store 2 ! 0) = 2
   \<and> (\<exists>u. ucb (one_move_store 2) 1 (1 = current_player one_move_board 0) = Inr u)
   \<and> traverse_nodes (one_move_store 2) one_move_board 0 0 1 = Some (Inr (1, 1))"
proof -
  have run: "think_loop one_move_board 0 1 no_draws 2 (root_store one_move_board 0, 0)
     = Some (Inr (one_move_store 2, 0))"
    by (rule one_move_run) simp
  have t: "traverse_nodes (one_move_store 2) one_move_board 0 0 1 = Some (Inr (1, 1))"
    by (rule one_move_traverse_root) simp
  from ucb_never_fails_in_think [where st = 0, OF run]
  have all: "\<forall>p<length (one_move_store 2). \<forall>(a, c)\<in>set (child_nodes (one_move_store 2 ! p)).
      parent (one_move_store 2 ! c) = Some p \<and> visits (one_move_store 2 ! c) \<noteq> 0
      \<and> visits (one_move_store 2 ! p) \<noteq> 0
      \<and> (\<exists>u. ucb (one_move_store 2) c (1 = current_player one_move_board 0) = Inr u)"
    by blast
  have "0 < length (one_move_store 2)"
    and "((0, 0, 0, 0), 1) \<in> set (child_nodes (one_move_store 2 ! 0))"
    by (simp_all add: one_move_store_def)
  with all have "\<exists>u. ucb (one_move_store 2) 1 (1 = current_player one_move_board 0) = Inr u"
    by fastforce
  with run t show ?thesis
    by (simp add: one_move_store_def)
qed

subsection \<open>Bounded wins and matching keys\<close>

lemma update_set_entries: "set (AList.update k v al) \<subseteq> insert (k, v) (set al)"
  by (induction al) auto

lemma root_store_bounds: "wins_bounded (root_store B s) \<and> keys_match (root_store B s)"
  by (simp add: wins_bounded_def keys_match_def root_store_def new_node_def)

lemma expand_leaf_bounds:
  assumes inv: "tree_inv h" and wb: "wins_bounded h" and km: "keys_match h"
    and leaf: "leaf < length h"
    and ex: "expand_leaf h B leaf s = Inr (h1, x, s1)"
  shows "wins_bounded h1 \<and> keys_match h1"
proof (cases "untried_actions (h ! leaf) = []")
  case True
  with ex leaf have "h1 = h" by (simp add: expand_leaf_def)
  with wb km show ?thesis by simp
next
  case False
  define a where "a = last (untried_actions (h ! leaf))"
  define nd2 where "nd2 = (h ! leaf)\<lparr>untried_actions := butlast (untried_actions (h ! leaf)),
     child_nodes := AList.update a (length h) (child_nodes (h ! leaf))\<rparr>"
  define new where "new = new_node (Some leaf) (Some a) (legal_actions B (next_state B s a))"
  from False ex leaf have h1: "h1 = h[leaf := nd2] @ [new]"
    by (auto simp: expand_leaf_def Let_def a_def nd2_def new_def)
  have len: "length h1 = Suc (length h)" by (simp add: h1)
  have old: "wins (h1 ! m) = wins (h ! m) \<and> visits (h1 ! m) = visits (h ! m)
      \<and> parent_action (h1 ! m) = parent_action (h ! m)
      \<and> child_nodes (h1 ! m) =
          (if m = leaf then AList.update a (length h) (child_nodes (h ! leaf))
           else child_nodes (h ! m))" if "m < length h" for m
    using that leaf by (cases "m = leaf") (simp_all add: h1 nth_append nd2_def)
  have newn: "wins (h1 ! length h) = 0" "visits (h1 ! length h) = 0"
    "parent_action (h1 ! length h) = Some a" "child_nodes (h1 ! length h) = []"
    by (simp_all add: h1 nth_append new_def new_node_def)
  have wb1: "wins_bounded h1"
    unfolding wins_bounded_def
  proof (intro allI impI)
    fix c assume c: "c < length h1"
    show "- real (visits (h1 ! c)) \<le> wins (h1 ! c)"
    proof (cases "c < length h")
      case True
      with wb old [of c] show ?thesis by (simp add: wins_bounded_def)
    next
      case False
      with c len have "c = length h" by simp
      with newn show ?thesis by simp
    qed
  qed
  have km1: "keys_match h1"
    unfolding keys_match_def
  proof (intro allI impI ballI)
    fix n ac assume n: "n < length h1" and ac: "ac \<in> set (child_nodes (h1 ! n))"
    show "parent_action (h1 ! snd ac) = Some (fst ac)"
    proof (cases "n < length h")
      case False
      with n len have "n = length h" by simp
      with ac newn show ?thesis by simp
    next
      case True
      show ?thesis
      proof (cases "ac \<in> set (child_nodes (h ! n))")
        case in_old: True
        then have "snd ac \<in> set (child_refs (h ! n))" by (simp add: child_refs_def)
        from tree_invD(4) [OF inv True this] have "snd ac < length h" by simp
        with old [of "snd ac"] km True in_old show ?thesis by (simp add: keys_match_def)
      next
        case False
        with ac old [OF True] have "n = leaf"
          and "ac \<in> set (AList.update a (length h) (child_nodes (h ! leaf)))"
          by (auto split: if_splits)
        with False update_set_entries [of a "length h" "child_nodes (h ! leaf)"]
        have "ac = (a, length h)" by auto
        with newn show ?thesis by simp
      qed
    qed
  qed
  from wb1 km1 show ?thesis by simp
qed

lemma backpropagate_bounds:
  assumes inv: "tree_inv h" and x: "x < length h"
    and wb: "wins_bounded h" and km: "keys_match h" and v: "- 1 \<le> v"
    and bp: "backpropagate h (Some x) v = Some (Inr h2)"
  shows "wins_bounded h2 \<and> keys_match h2"
proof -
  from chain_exists [OF inv x] obtain ns where ch: "parent_chain h x ns" by blast
  from backpropagate_fold [OF ch, of v] bp have h2: "h2 = bump_all v ns h" by simp
  have d: "distinct ns" using ch by (rule parent_chain_distinct)
  have r: "\<forall>m\<in>set ns. m < length h" using ch by (blast intro: parent_chain_in_store)
  have len: "length h2 = length h" by (simp add: h2)
  have nth: "h2 ! m = (if m \<in> set ns then bump v (h ! m) else h ! m)" if "m < length h" for m
    unfolding h2 using d r that by (rule nth_bump_all)
  have wb2: "wins_bounded h2"
    unfolding wins_bounded_def
  proof (intro allI impI)
    fix c assume "c < length h2"
    with len have c: "c < length h" by simp
    with wb have "- real (visits (h ! c)) \<le> wins (h ! c)" by (simp add: wins_bounded_def)
    with v nth [OF c] show "- real (visits (h2 ! c)) \<le> wins (h2 ! c)"
      by (simp add: bump_def)
  qed
  have km2: "keys_match h2"
    unfolding keys_match_def
  proof (intro allI impI ballI)
    fix n ac assume "n < length h2" and ac: "ac \<in> set (child_nodes (h2 ! n))"
    with len have n: "n < length h" by simp
    with ac nth [OF n] have in_old: "ac \<in> set (child_nodes (h ! n))"
      by (simp add: bump_def split: if_splits)
    then have "snd ac \<in> set (child_refs (h ! n))" by (simp add: child_refs_def)
    from tree_invD(4) [OF inv n this] have "snd ac < length h" by simp
    from nth [OF this] km n in_old show "parent_action (h2 ! snd ac) = Some (fst ac)"
      by (simp add: bump_def keys_match_def)
  qed
  from wb2 km2 show ?thesis by simp
qed

lemma think_iteration_bounds:
  assumes inv: "tree_inv h" and vis: "visited_except h 0"
    and wb: "wins_bounded h" and km: "keys_match h"
    and out: "\<forall>st sc pl v. points_values B st = Some sc \<longrightarrow> sc pl = Some v \<longrightarrow> - 1 \<le> v"
    and it: "think_iteration B s bot_identity rnd (h, k) = Some (Inr (h', k'))"
  shows "wins_bounded h' \<and> keys_match h'"
proof -
  from traverse_nodes_total [where B = B and s = s and bot_identity = bot_identity,
      OF inv vis tree_invD(1) [OF inv]]
  obtain r where tr: "traverse_nodes h B 0 s bot_identity = Some r"
    and r: "r = Inl AttributeError \<or> (\<exists>leaf s'. r = Inr (leaf, s') \<and> leaf < length h)"
    by blast
  from r it tr obtain leaf s' where r': "r = Inr (leaf, s')" and leaf: "leaf < length h"
    by (auto simp: think_iteration_def)
  from it tr r' obtain h1 x s1 where ex: "expand_leaf h B leaf s' = Inr (h1, x, s1)"
    by (auto simp: think_iteration_def split: sum.splits)
  from expand_leaf_inv [OF inv vis leaf ex]
  have inv1: "tree_inv h1" and x: "x < length h1" by simp_all
  from expand_leaf_bounds [OF inv wb km leaf ex]
  have wb1: "wins_bounded h1" and km1: "keys_match h1" by simp_all
  from it tr r' ex obtain s2 k2 sc won
    where pv: "points_values B s2 = Some sc" and w: "sc bot_identity = Some won"
      and bp: "backpropagate h1 (Some x) won = Some (Inr h')"
    by (auto simp: think_iteration_def split: sum.splits option.splits)
  from out pv w have "- 1 \<le> won" by blast
  from backpropagate_bounds [OF inv1 x wb1 km1 this bp] show ?thesis .
qed

lemma think_loop_bounds:
  assumes out: "\<forall>st sc pl v. points_values B st = Some sc \<longrightarrow> sc pl = Some v \<longrightarrow> - 1 \<le> v"
  shows "tree_inv h \<Longrightarrow> visited_except h 0 \<Longrightarrow> wins_bounded h \<Longrightarrow> keys_match h \<Longrightarrow>
   think_loop B s bot_identity rnd n (h, k) = Some (Inr (h', k')) \<Longrightarrow>
   wins_bounded h' \<and> keys_match h'"
proof (induction n arbitrary: h k)
  case 0
  then show ?case by simp
next
  case (Suc n)
  from Suc.prems(5) obtain h1 k1
    where it: "think_iteration B s bot_identity rnd (h, k) = Some (Inr (h1, k1))"
      and lp: "think_loop B s bot_identity rnd n (h1, k1) = Some (Inr (h', k'))"
    by (auto split: option.splits sum.splits)
  from think_iteration_inv [OF Suc.prems(1,2) it]
  have 1: "tree_inv h1" "visited_except h1 0" by simp_all
  from think_iteration_bounds [OF Suc.prems(1,2,3,4) out it]
  have 2: "wins_bounded h1" "keys_match h1" by simp_all
  from Suc.IH [OF 1 2 lp] show ?case .
qed

text \<open>
  Claim C4. In every store that the loop of \<^verbatim>\<open>think\<close> builds for a game whose outcome
  values are at least \<open>- 1\<close> (as the values \<open>- 1\<close>, \<open>0\<close>, \<open>1\<close> of the game are),
  every child of the root has \<open>visits > 0\<close>. For a root with at least one child,
  \<^verbatim>\<open>get_best_action\<close> returns the \<^verbatim>\<open>parent_action\<close> of the child whose win rate
  \<open>wins / visits\<close> is greatest, the first such child in the stored order of the children;
  the returned action is the key under which that child is stored in the root's children.
\<close>

theorem get_best_action_after_think:
  assumes run: "think_loop B s bot_identity rnd n (root_store B s, 0) = Some (Inr (h, k))"
    and out: "\<forall>st sc pl v. points_values B st = Some sc \<longrightarrow> sc pl = Some v \<longrightarrow> - 1 \<le> v"
    and kids: "child_nodes (h ! 0) \<noteq> []"
  shows "\<exists>i<length (child_nodes (h ! 0)).
           get_best_action h 0 = Inr (parent_action (h ! snd (child_nodes (h ! 0) ! i)))
         \<and> parent_action (h ! snd (child_nodes (h ! 0) ! i)) = Some (fst (child_nodes (h ! 0) ! i))
         \<and> 0 < visits (h ! snd (child_nodes (h ! 0) ! i))
         \<and> (\<forall>j<length (child_nodes (h ! 0)).
               0 < visits (h ! snd (child_nodes (h ! 0) ! j))
             \<and> rate h (snd (child_nodes (h ! 0) ! j)) \<le> rate h (snd (child_nodes (h ! 0) ! i)))
         \<and> (\<forall>j<i. rate h (snd (child_nodes (h ! 0) ! j)) < rate h (snd (child_nodes (h ! 0) ! i)))"
proof -
  let ?al = "child_nodes (h ! 0)"
  define cs where "cs = map snd ?al"
  from think_loop_from_root [OF run]
  have inv: "tree_inv h" and vis: "visited_except h 0" by simp_all
  have "wins_bounded (root_store B s)" and "keys_match (root_store B s)"
    using root_store_bounds [of B s] by simp_all
  from think_loop_bounds [OF out root_store_inv root_store_visited this run]
  have wb: "wins_bounded h" and km: "keys_match h" by simp_all
  have root: "0 < length h" by (rule tree_invD(1) [OF inv])
  have ch: "c < length h \<and> 0 < visits (h ! c)" if "c \<in> set cs" for c
  proof -
    from that have "c \<in> set (child_refs (h ! 0))" by (simp add: cs_def child_refs_def)
    from child_ucb_defined [OF inv vis root this, of True] show ?thesis by simp
  qed
  then have all: "\<forall>c\<in>set cs. c < length h \<and> 0 < visits (h ! c)" by blast
  from kids obtain c0 where c0: "c0 \<in> set cs" by (cases ?al) (auto simp: cs_def)
  have "- 999999 < rate h c0"
  proof -
    from ch [OF c0] have l: "c0 < length h" and v: "0 < visits (h ! c0)" by simp_all
    from wb l have "- real (visits (h ! c0)) \<le> wins (h ! c0)" by (simp add: wins_bounded_def)
    with v have "- 1 \<le> wins (h ! c0) / real (visits (h ! c0))"
      by (simp add: pos_le_divide_eq)
    then show ?thesis by (simp add: rate_def)
  qed
  with c0 have above: "\<exists>c\<in>set cs. - 999999 < rate h c" by blast
  from get_best_action_above_sentinel [OF root cs_def all above]
  obtain i where i: "i < length cs"
    and r: "get_best_action h 0 = Inr (parent_action (h ! (cs ! i)))"
    and mx: "\<forall>j<length cs. rate h (cs ! j) \<le> rate h (cs ! i)"
    and fs: "\<forall>j<i. rate h (cs ! j) < rate h (cs ! i)"
    by blast
  have nth: "cs ! j = snd (?al ! j)" if "j < length ?al" for j
    using that by (simp add: cs_def)
  have len: "length cs = length ?al" by (simp add: cs_def)
  have key: "parent_action (h ! snd (?al ! i)) = Some (fst (?al ! i))"
  proof -
    from i len have "?al ! i \<in> set ?al" by simp
    with km root show ?thesis unfolding keys_match_def by blast
  qed
  have vj: "0 < visits (h ! snd (?al ! j))" if "j < length ?al" for j
  proof -
    from that len have "cs ! j \<in> set cs" by simp
    from ch [OF this] nth [OF that] show ?thesis by simp
  qed
  from i r mx fs key vj len nth show ?thesis
    by (intro exI [of _ i]) auto
qed

theorem get_best_action_after_think_witness:
  "think_loop one_move_board 0 1 no_draws 3 (root_store one_move_board 0, 0)
     = Some (Inr (one_move_store 3, 0))
   \<and> child_nodes (one_move_store 3 ! 0) = [((0, 0, 0, 0), 1)]
   \<and> get_best_action (one_move_store 3) 0 = Inr (Some (0, 0, 0, 0))
   \<and> rate (one_move_store 3) 1 = 1"
proof -
  have run: "think_loop one_move_board 0 1 no_draws 3 (root_store one_move_board 0, 0)
     = Some (Inr (one_move_store 3, 0))"
    by (rule one_move_run) simp
  have out: "\<forall>st sc pl v. points_values one_move_board st = Some sc \<longrightarrow> sc pl = Some v
      \<longrightarrow> - 1 \<le> v"
    by (auto simp: one_move_board_def player1_wins_def split: if_splits)
  have kids: "child_nodes (one_move_store 3 ! 0) \<noteq> []"
    by (simp add: one_move_store_def)
  from get_best_action_after_think [OF run out kids] run show ?thesis
    by (auto simp: one_move_store_def rate_def)
qed

end
